theory Spec2Isabelle
  imports Main
begin

section \<open>Python values and exceptions\<close>

text \<open>
  The program is Python. A Python \<open>str\<close> is modelled as a \<^typ>\<open>string\<close>: a character
  is the code point of the same number, U+0000 to U+00FF (the serial protocol of the
  program is ASCII text). Python's integers are unbounded: \<^typ>\<open>int\<close>.

  Every exception the modelled code can raise is a value of \<open>exn\<close>; a function that can
  raise returns \<open>exn + 'a\<close>, with \<open>Inl\<close> for the exception. \<open>Unmodelled\<close> is not a Python
  exception: it marks an input that leaves the modelled fragment (a code point above
  U+00FF, a floating-point number), about which the model says nothing.
\<close>

datatype exn =
  IndexError | ValueError | AttributeError | JSONDecodeError | EngineError
  | RecursionError | Unmodelled

text \<open>\<open>ord(c)\<close> and \<open>chr(i)\<close>. \<open>chr\<close> raises ValueError outside \<open>range(0x110000)\<close>.\<close>

definition ord :: "char \<Rightarrow> int" where
  "ord c = int (of_char c)"

definition chr :: "int \<Rightarrow> exn + char" where
  "chr i = (if i < 0 \<or> 1114112 \<le> i then Inl ValueError
            else if 256 \<le> i then Inl Unmodelled
            else Inr (char_of (nat i)))"

text \<open>
  \<open>c.upper()\<close> and \<open>c.lower()\<close> on one character. Python consults the Unicode case
  tables; for the characters of the model they are the two maps below: the letters of
  ASCII, and the letters U+00C0 to U+00DE and U+00E0 to U+00FE but for the signs U+00D7
  and U+00F7. Three characters have their upper case outside the model and are left as
  they are here: U+00B5 (U+039C in Python), U+00DF (the two letters SS) and U+00FF
  (U+0178).
\<close>

definition upper_char :: "char \<Rightarrow> char" where
  "upper_char c = (let n = (of_char c :: nat) in
     if (97 \<le> n \<and> n \<le> 122) \<or> (224 \<le> n \<and> n \<le> 254 \<and> n \<noteq> 247)
     then char_of (n - 32) else c)"

definition lower_char :: "char \<Rightarrow> char" where
  "lower_char c = (let n = (of_char c :: nat) in
     if (65 \<le> n \<and> n \<le> 90) \<or> (192 \<le> n \<and> n \<le> 222 \<and> n \<noteq> 215)
     then char_of (n + 32) else c)"

definition upper :: "string \<Rightarrow> string" where
  "upper s = map upper_char s"

definition lower :: "string \<Rightarrow> string" where
  "lower s = map lower_char s"

text \<open>\<open>str(n)\<close> for an integer: its decimal digits, with a minus sign when negative.\<close>

definition digit_char :: "nat \<Rightarrow> char" where
  "digit_char d = char_of (48 + d)"

function str_nat :: "nat \<Rightarrow> string" where
  "str_nat n = (if n < 10 then [digit_char n] else str_nat (n div 10) @ [digit_char (n mod 10)])"
  by pat_completeness auto
termination
  by (relation "measure id") auto

declare str_nat.simps [simp del]

definition str_int :: "int \<Rightarrow> string" where
  "str_int i = (if i < 0 then CHR ''-'' # str_nat (nat (- i)) else str_nat (nat i))"

text \<open>
  \<open>int(c)\<close> for a string of one character \<open>c\<close>: the digit's value, ValueError for
  any other character.
\<close>

definition is_digit :: "char \<Rightarrow> bool" where
  "is_digit c = (48 \<le> (of_char c :: nat) \<and> (of_char c :: nat) \<le> 57)"

definition digit_val :: "char \<Rightarrow> nat" where
  "digit_val c = of_char c - 48"

definition int_of_char :: "char \<Rightarrow> exn + int" where
  "int_of_char c = (if is_digit c then Inr (int (digit_val c)) else Inl ValueError)"

section \<open>JSON values and \<open>json.dumps\<close>\<close>

text \<open>
  The values \<open>json.loads\<close> returns and \<open>json.dumps\<close> accepts: \<open>None\<close>, \<open>bool\<close>,
  \<open>int\<close>, \<open>str\<close>, \<open>list\<close> and \<open>dict\<close> with string keys. A \<open>dict\<close> keeps its keys in
  insertion order: an association list. Python's \<open>float\<close> is not modelled.
\<close>

datatype json =
  JNull | JBool bool | JInt int | JStr string | JArr "json list" | JObj "(string \<times> json) list"

text \<open>\<open>d.get(key, default)\<close>\<close>

definition dict_get :: "(string \<times> json) list \<Rightarrow> string \<Rightarrow> json \<Rightarrow> json" where
  "dict_get d key dflt = (case map_of d key of None \<Rightarrow> dflt | Some v \<Rightarrow> v)"

text \<open>\<open>d[key] = v\<close>: an existing key keeps its place and takes the new value.\<close>

fun dict_set :: "(string \<times> json) list \<Rightarrow> string \<Rightarrow> json \<Rightarrow> (string \<times> json) list" where
  "dict_set [] key v = [(key, v)]"
| "dict_set ((k, w) # d) key v = (if k = key then (k, v) # d else (k, w) # dict_set d key v)"

text \<open>\<open>{**d, **e}\<close>: the entries of \<open>e\<close> are stored into \<open>d\<close> one after the other.\<close>

definition dict_merge :: "(string \<times> json) list \<Rightarrow> (string \<times> json) list \<Rightarrow> (string \<times> json) list" where
  "dict_merge d e = foldl (\<lambda>acc kv. dict_set acc (fst kv) (snd kv)) d e"

text \<open>Truth value of an object, as \<open>not x\<close> tests it.\<close>

fun truthy :: "json \<Rightarrow> bool" where
  "truthy JNull = False"
| "truthy (JBool b) = b"
| "truthy (JInt i) = (i \<noteq> 0)"
| "truthy (JStr s) = (s \<noteq> [])"
| "truthy (JArr xs) = (xs \<noteq> [])"
| "truthy (JObj d) = (d \<noteq> [])"

text \<open>\<open>x.lower()\<close>: only a \<open>str\<close> has the method.\<close>

fun str_lower :: "json \<Rightarrow> exn + string" where
  "str_lower (JStr s) = Inr (lower s)"
| "str_lower _ = Inl AttributeError"

text \<open>
  \<open>json.dumps\<close> with its defaults (\<open>ensure_ascii=True\<close>, separators \<open>', '\<close> and
  \<open>': '\<close>). In a string, the quote, the backslash and every character outside
  \<open>' '\<close> to \<open>'~'\<close> are escaped.
\<close>

definition hex_char :: "nat \<Rightarrow> char" where
  "hex_char d = ''0123456789abcdef'' ! d"

definition escape_char :: "char \<Rightarrow> string" where
  "escape_char c = (let n = (of_char c :: nat) in
     if c = CHR 0x22 then [CHR 0x5C, CHR 0x22]
     else if c = CHR 0x5C then [CHR 0x5C, CHR 0x5C]
     else if c = CHR 0x0A then [CHR 0x5C, CHR ''n'']
     else if c = CHR 0x0D then [CHR 0x5C, CHR ''r'']
     else if c = CHR 0x09 then [CHR 0x5C, CHR ''t'']
     else if c = CHR 0x08 then [CHR 0x5C, CHR ''b'']
     else if c = CHR 0x0C then [CHR 0x5C, CHR ''f'']
     else if 32 \<le> n \<and> n \<le> 126 then [c]
     else [CHR 0x5C, CHR ''u'', CHR ''0'', CHR ''0'', hex_char (n div 16), hex_char (n mod 16)])"

definition dumps_str :: "string \<Rightarrow> string" where
  "dumps_str s = CHR 0x22 # concat (map escape_char s) @ [CHR 0x22]"

fun json_dumps :: "json \<Rightarrow> string"
  and dumps_items :: "json list \<Rightarrow> string"
  and dumps_pairs :: "(string \<times> json) list \<Rightarrow> string" where
  "json_dumps JNull = ''null''"
| "json_dumps (JBool b) = (if b then ''true'' else ''false'')"
| "json_dumps (JInt i) = str_int i"
| "json_dumps (JStr s) = dumps_str s"
| "json_dumps (JArr []) = ''[]''"
| "json_dumps (JArr (x # xs)) = ''['' @ json_dumps x @ dumps_items xs @ '']''"
| "json_dumps (JObj []) = ''{}''"
| "json_dumps (JObj ((k, v) # d)) =
     ''{'' @ dumps_str k @ '': '' @ json_dumps v @ dumps_pairs d @ ''}''"
| "dumps_items [] = []"
| "dumps_items (x # xs) = '', '' @ json_dumps x @ dumps_items xs"
| "dumps_pairs [] = []"
| "dumps_pairs ((k, v) # d) = '', '' @ dumps_str k @ '': '' @ json_dumps v @ dumps_pairs d"

section \<open>\<open>json.loads\<close>\<close>

text \<open>
  The decoder of Python's \<open>json\<close> module (the standard library, not code of the
  repository, written out here as the library behaves): \<open>JSONDecoder.decode\<close>, \<open>scan_once\<close>,
  \<open>JSONArray\<close>, \<open>JSONObject\<close> and \<open>scanstring\<close>, on the text that remains to be read.
  A malformed text raises JSONDecodeError. A number with a fraction or an exponent,
  \<open>NaN\<close> and \<open>Infinity\<close> are floats, and an escape \<open>\uXXXX\<close> above U+00FF is a
  character outside the model: both give \<open>Unmodelled\<close>.

  The interpreter sets two limits to the decoder that are not written out here: a text
  nested deeper than the recursion limit allows raises RecursionError, and an integer
  of more digits than \<^verbatim>\<open>sys.get_int_max_str_digits()\<close> (4300 unless configured) raises
  ValueError. \<open>json_loads\<close> below is \<open>json.loads\<close> on the texts that stay under both
  limits (and \<open>json_dumps\<close> above is \<open>json.dumps\<close> on the values that do). The
  message handlers of the server and \<open>parse_message_by\<close> do not rely on
  it: they take the decoder as a parameter, so what is proved of them holds whatever
  \<open>json.loads\<close> returns or raises.
\<close>

definition is_ws :: "char \<Rightarrow> bool" where
  "is_ws c = (c = CHR '' '' \<or> c = CHR 0x09 \<or> c = CHR 0x0A \<or> c = CHR 0x0D)"

definition skip_ws :: "string \<Rightarrow> string" where
  "skip_ws s = dropWhile is_ws s"

definition hex_val :: "char \<Rightarrow> nat option" where
  "hex_val c = (let n = (of_char c :: nat) in
     if 48 \<le> n \<and> n \<le> 57 then Some (n - 48)
     else if 97 \<le> n \<and> n \<le> 102 then Some (n - 87)
     else if 65 \<le> n \<and> n \<le> 70 then Some (n - 55)
     else None)"

definition decode_hex4 :: "char \<Rightarrow> char \<Rightarrow> char \<Rightarrow> char \<Rightarrow> nat option" where
  "decode_hex4 h1 h2 h3 h4 =
     (case (hex_val h1, hex_val h2, hex_val h3, hex_val h4) of
        (Some a, Some b, Some c, Some d) \<Rightarrow> Some (((a * 16 + b) * 16 + c) * 16 + d)
      | _ \<Rightarrow> None)"

text \<open>The table \<open>BACKSLASH\<close> of the one-letter escapes.\<close>

definition unescape :: "char \<Rightarrow> char option" where
  "unescape e =
     (if e = CHR 0x22 then Some (CHR 0x22)
      else if e = CHR 0x5C then Some (CHR 0x5C)
      else if e = CHR ''/'' then Some (CHR ''/'')
      else if e = CHR ''b'' then Some (CHR 0x08)
      else if e = CHR ''f'' then Some (CHR 0x0C)
      else if e = CHR ''n'' then Some (CHR 0x0A)
      else if e = CHR ''r'' then Some (CHR 0x0D)
      else if e = CHR ''t'' then Some (CHR 0x09)
      else None)"

definition prepend :: "char \<Rightarrow> exn + (string \<times> string) \<Rightarrow> exn + (string \<times> string)" where
  "prepend c r = (case r of Inl e \<Rightarrow> Inl e | Inr (x, rest) \<Rightarrow> Inr (c # x, rest))"

text \<open>
  \<open>scanstring\<close>, from the character after the opening quote: the decoded string and the
  text after the closing quote. A control character inside the string is an error
  (\<open>strict=True\<close>).
\<close>

fun scanstring :: "string \<Rightarrow> exn + (string \<times> string)" where
  "scanstring [] = Inl JSONDecodeError"
| "scanstring (c # cs) =
     (if c = CHR 0x22 then Inr ([], cs)
      else if c = CHR 0x5C then
        (case cs of
           [] \<Rightarrow> Inl JSONDecodeError
         | e # cs1 \<Rightarrow>
             if e = CHR ''u'' then
               (case cs1 of
                  h1 # h2 # h3 # h4 # cs2 \<Rightarrow>
                    (case decode_hex4 h1 h2 h3 h4 of
                       None \<Rightarrow> Inl JSONDecodeError
                     | Some n \<Rightarrow>
                         if n < 256 then prepend (char_of n) (scanstring cs2)
                         else Inl Unmodelled)
                | _ \<Rightarrow> Inl JSONDecodeError)
             else
               (case unescape e of
                  None \<Rightarrow> Inl JSONDecodeError
                | Some ch \<Rightarrow> prepend ch (scanstring cs1)))
      else if (of_char c :: nat) < 32 then Inl JSONDecodeError
      else prepend c (scanstring cs))"

text \<open>
  A number, by \<open>NUMBER_RE\<close>: an optional minus sign, then \<open>0\<close> or a digit 1 to 9 and
  further digits. A fraction (a point and a digit) or an exponent after it makes a
  float. Where no number stands, \<open>NaN\<close>, \<open>Infinity\<close> and \<open>-Infinity\<close> are floats too,
  and anything else is an error.
\<close>

definition digits_val :: "string \<Rightarrow> nat" where
  "digits_val ds = foldl (\<lambda>a c. 10 * a + digit_val c) 0 ds"

definition is_float_tail :: "string \<Rightarrow> bool" where
  "is_float_tail r =
     (case r of
        [] \<Rightarrow> False
      | c # r1 \<Rightarrow>
          if c = CHR ''.'' then (case r1 of [] \<Rightarrow> False | d # _ \<Rightarrow> is_digit d)
          else if c = CHR ''e'' \<or> c = CHR ''E'' then
            (case r1 of
               [] \<Rightarrow> False
             | d # r2 \<Rightarrow>
                 if d = CHR ''+'' \<or> d = CHR ''-''
                 then (case r2 of [] \<Rightarrow> False | d2 # _ \<Rightarrow> is_digit d2)
                 else is_digit d)
          else False)"

definition is_prefix :: "string \<Rightarrow> string \<Rightarrow> bool" where
  "is_prefix p s = (take (length p) s = p)"

definition scan_number :: "string \<Rightarrow> exn + (json \<times> string)" where
  "scan_number s =
     (let neg = (case s of [] \<Rightarrow> False | c # _ \<Rightarrow> c = CHR ''-'');
          s1 = (if neg then tl s else s)
      in case s1 of
           [] \<Rightarrow> Inl JSONDecodeError
         | c # cs \<Rightarrow>
             if is_digit c then
               (let ds = (if c = CHR ''0'' then [c] else takeWhile is_digit s1);
                    rest = drop (length ds) s1
                in if is_float_tail rest then Inl Unmodelled
                   else Inr (JInt (if neg then - int (digits_val ds) else int (digits_val ds)),
                             rest))
             else if is_prefix ''NaN'' s \<or> is_prefix ''Infinity'' s \<or> is_prefix ''-Infinity'' s
             then Inl Unmodelled
             else Inl JSONDecodeError)"

text \<open>
  \<open>scan_once\<close>, \<open>JSONArray\<close> (\<open>array_items\<close>, from the first item) and \<open>JSONObject\<close>
  (\<open>object_pairs\<close>, from the quote of the first key). The first argument bounds the
  number of calls of the definition, which makes it terminate; \<open>json_loads\<close> gives
  enough of it for the whole text, so that the bound is never reached (lemma
  \<open>json_loads_no_RecursionError\<close>). It is not the recursion limit of the interpreter.
\<close>

fun scan_once :: "nat \<Rightarrow> string \<Rightarrow> exn + (json \<times> string)"
  and array_items :: "nat \<Rightarrow> string \<Rightarrow> exn + (json list \<times> string)"
  and object_pairs :: "nat \<Rightarrow> string \<Rightarrow> exn + ((string \<times> json) list \<times> string)" where
  "scan_once 0 s = Inl RecursionError"
| "scan_once (Suc n) s =
     (case s of
        [] \<Rightarrow> Inl JSONDecodeError
      | c # cs \<Rightarrow>
          if c = CHR 0x22 then
            (case scanstring cs of Inl e \<Rightarrow> Inl e | Inr (x, r) \<Rightarrow> Inr (JStr x, r))
          else if c = CHR ''{'' then
            (case skip_ws cs of
               [] \<Rightarrow> Inl JSONDecodeError
             | d # r \<Rightarrow>
                 if d = CHR ''}'' then Inr (JObj [], r)
                 else if d = CHR 0x22 then
                   (case object_pairs n (d # r) of
                      Inl e \<Rightarrow> Inl e
                    | Inr (pairs, r1) \<Rightarrow> Inr (JObj (dict_merge [] pairs), r1))
                 else Inl JSONDecodeError)
          else if c = CHR ''['' then
            (case skip_ws cs of
               [] \<Rightarrow> Inl JSONDecodeError
             | d # r \<Rightarrow>
                 if d = CHR '']'' then Inr (JArr [], r)
                 else
                   (case array_items n (d # r) of
                      Inl e \<Rightarrow> Inl e
                    | Inr (items, r1) \<Rightarrow> Inr (JArr items, r1)))
          else if is_prefix ''null'' s then Inr (JNull, drop 4 s)
          else if is_prefix ''true'' s then Inr (JBool True, drop 4 s)
          else if is_prefix ''false'' s then Inr (JBool False, drop 5 s)
          else scan_number s)"
| "array_items 0 s = Inl RecursionError"
| "array_items (Suc n) s =
     (case scan_once n s of
        Inl e \<Rightarrow> Inl e
      | Inr (v, r) \<Rightarrow>
          (case skip_ws r of
             [] \<Rightarrow> Inl JSONDecodeError
           | c # r1 \<Rightarrow>
               if c = CHR '']'' then Inr ([v], r1)
               else if c = CHR '','' then
                 (case array_items n (skip_ws r1) of
                    Inl e \<Rightarrow> Inl e
                  | Inr (vs, r2) \<Rightarrow> Inr (v # vs, r2))
               else Inl JSONDecodeError))"
| "object_pairs 0 s = Inl RecursionError"
| "object_pairs (Suc n) s =
     (case s of
        [] \<Rightarrow> Inl JSONDecodeError
      | q # s1 \<Rightarrow>
          if q \<noteq> CHR 0x22 then Inl JSONDecodeError
          else
            (case scanstring s1 of
               Inl e \<Rightarrow> Inl e
             | Inr (key, r) \<Rightarrow>
                 (case skip_ws r of
                    [] \<Rightarrow> Inl JSONDecodeError
                  | c # r1 \<Rightarrow>
                      if c \<noteq> CHR '':'' then Inl JSONDecodeError
                      else
                        (case scan_once n (skip_ws r1) of
                           Inl e \<Rightarrow> Inl e
                         | Inr (v, r2) \<Rightarrow>
                             (case skip_ws r2 of
                                [] \<Rightarrow> Inl JSONDecodeError
                              | d # r3 \<Rightarrow>
                                  if d = CHR ''}'' then Inr ([(key, v)], r3)
                                  else if d = CHR '','' then
                                    (case object_pairs n (skip_ws r3) of
                                       Inl e \<Rightarrow> Inl e
                                     | Inr (pairs, r4) \<Rightarrow> Inr ((key, v) # pairs, r4))
                                  else Inl JSONDecodeError)))))"

text \<open>
  \<open>json.loads(s)\<close>: white space, one value, white space, the end of the text; anything
  left over is an error (\<open>Extra data\<close>).
\<close>

definition json_loads :: "string \<Rightarrow> exn + json" where
  "json_loads s =
     (case scan_once (2 * length s + 2) (skip_ws s) of
        Inl e \<Rightarrow> Inl e
      | Inr (v, r) \<Rightarrow> if skip_ws r = [] then Inr v else Inl JSONDecodeError)"

text \<open>
  A Python \<open>dict\<close> holds every key once. \<open>wf_json\<close> says so of a value: every
  association list in it has distinct keys.
\<close>

fun wf_json :: "json \<Rightarrow> bool"
  and wf_items :: "json list \<Rightarrow> bool"
  and wf_pairs :: "(string \<times> json) list \<Rightarrow> bool" where
  "wf_json (JArr xs) = wf_items xs"
| "wf_json (JObj d) = (distinct (map fst d) \<and> wf_pairs d)"
| "wf_json _ = True"
| "wf_items [] = True"
| "wf_items (x # xs) = (wf_json x \<and> wf_items xs)"
| "wf_pairs [] = True"
| "wf_pairs ((k, v) # d) = (wf_json v \<and> wf_pairs d)"

text \<open>
  Two predicates for the proofs about the decoder. \<open>stop\<close>: the text that follows a
  value printed by \<open>json.dumps\<close> is empty or starts with a comma or a closing bracket.
  \<open>decoded_ok\<close>: a result of the decoder is an error of the text (or leaves the
  model), or a value with less text left than there was.
\<close>

definition stop :: "string \<Rightarrow> bool" where
  "stop rest = (case rest of [] \<Rightarrow> True
                | c # _ \<Rightarrow> c = CHR '','' \<or> c = CHR '']'' \<or> c = CHR ''}'')"

definition decoded_ok :: "exn + ('a \<times> string) \<Rightarrow> string \<Rightarrow> bool" where
  "decoded_ok res s =
     (case res of
        Inl e \<Rightarrow> e = JSONDecodeError \<or> e = Unmodelled
      | Inr (v, r) \<Rightarrow> length r < length s)"

section \<open>python-chess\<close>

text \<open>
  The program imports the python-chess library for the board and the rules of chess. The
  library is not part of the repository. Its notation functions, its move type and its
  starting position are written out here as the library defines them; its rule
  functions (the legal moves, making and unmaking a move, the end of the game) are
  parameters of the model, so every theorem below holds whatever they compute.
\<close>

type_synonym square = nat

definition FILE_NAMES :: "char list" where
  "FILE_NAMES = ''abcdefgh''"

definition RANK_NAMES :: "char list" where
  "RANK_NAMES = ''12345678''"

text \<open>\<^verbatim>\<open>SQUARE_NAMES = [f + r for r in RANK_NAMES for f in FILE_NAMES]\<close>\<close>

definition SQUARE_NAMES :: "string list" where
  "SQUARE_NAMES = concat (map (\<lambda>r. map (\<lambda>f. [f, r]) FILE_NAMES) RANK_NAMES)"

text \<open>\<open>chess.square(file_index, rank_index)\<close>\<close>

definition square :: "nat \<Rightarrow> nat \<Rightarrow> square" where
  "square file_index rank_index = rank_index * 8 + file_index"

text \<open>\<open>xs.index(x)\<close>: the first position of \<open>x\<close>, ValueError when it is absent.\<close>

fun index_of :: "'a list \<Rightarrow> 'a \<Rightarrow> exn + nat" where
  "index_of [] x = Inl ValueError"
| "index_of (y # ys) x =
     (if y = x then Inr 0
      else case index_of ys x of Inl e \<Rightarrow> Inl e | Inr i \<Rightarrow> Inr (Suc i))"

text \<open>\<open>chess.parse_square(name)\<close> is \<open>SQUARE_NAMES.index(name)\<close>.\<close>

definition parse_square :: "string \<Rightarrow> exn + square" where
  "parse_square name = index_of SQUARE_NAMES name"

text \<open>\<open>chess.square_name(square)\<close> is \<open>SQUARE_NAMES[square]\<close>.\<close>

definition square_name :: "square \<Rightarrow> exn + string" where
  "square_name sq = (if sq < length SQUARE_NAMES then Inr (SQUARE_NAMES ! sq) else Inl IndexError)"

datatype piece_type = PAWN | KNIGHT | BISHOP | ROOK | QUEEN | KING

datatype color = WHITE | BLACK

type_synonym piece = "piece_type \<times> color"

text \<open>\<open>chess.piece_symbol\<close>, and the search \<open>PIECE_SYMBOLS.index(c)\<close> of a character.\<close>

fun piece_symbol :: "piece_type \<Rightarrow> char" where
  "piece_symbol PAWN = CHR ''p''"
| "piece_symbol KNIGHT = CHR ''n''"
| "piece_symbol BISHOP = CHR ''b''"
| "piece_symbol ROOK = CHR ''r''"
| "piece_symbol QUEEN = CHR ''q''"
| "piece_symbol KING = CHR ''k''"

definition piece_symbols_index :: "char \<Rightarrow> exn + piece_type" where
  "piece_symbols_index c =
     (if c = CHR ''p'' then Inr PAWN else if c = CHR ''n'' then Inr KNIGHT
      else if c = CHR ''b'' then Inr BISHOP else if c = CHR ''r'' then Inr ROOK
      else if c = CHR ''q'' then Inr QUEEN else if c = CHR ''k'' then Inr KING
      else Inl ValueError)"

text \<open>
  \<open>chess.Move\<close>. The field \<open>drop\<close> of the library is \<open>drop_piece\<close> here. A move is false
  (the null move) when the four fields are 0, 0, \<open>None\<close>, \<open>None\<close>.
\<close>

record move =
  from_square :: square
  to_square :: square
  promotion :: "piece_type option"
  drop_piece :: "piece_type option"

definition Move :: "square \<Rightarrow> square \<Rightarrow> move" where
  "Move f t = \<lparr>from_square = f, to_square = t, promotion = None, drop_piece = None\<rparr>"

definition move_bool :: "move \<Rightarrow> bool" where
  "move_bool m = (from_square m \<noteq> 0 \<or> to_square m \<noteq> 0 \<or> promotion m \<noteq> None
                   \<or> drop_piece m \<noteq> None)"

text \<open>
  \<open>Move.uci()\<close>: a drop is \<open>P@e4\<close>, a promotion appends the piece letter, the null move
  is \<open>0000\<close>. \<open>SQUARE_NAMES[sq]\<close> raises IndexError for a square above 63.
\<close>

definition uci :: "move \<Rightarrow> exn + string" where
  "uci m =
     (case drop_piece m of
        Some d \<Rightarrow>
          (case square_name (to_square m) of
             Inl e \<Rightarrow> Inl e
           | Inr t \<Rightarrow> Inr (upper [piece_symbol d] @ ''@'' @ t))
      | None \<Rightarrow>
          (case promotion m of
             Some p \<Rightarrow>
               (case square_name (from_square m) of
                  Inl e \<Rightarrow> Inl e
                | Inr f \<Rightarrow>
                    (case square_name (to_square m) of
                       Inl e \<Rightarrow> Inl e
                     | Inr t \<Rightarrow> Inr (f @ t @ [piece_symbol p])))
           | None \<Rightarrow>
               if move_bool m then
                 (case square_name (from_square m) of
                    Inl e \<Rightarrow> Inl e
                  | Inr f \<Rightarrow>
                      (case square_name (to_square m) of
                         Inl e \<Rightarrow> Inl e
                       | Inr t \<Rightarrow> Inr (f @ t)))
               else Inr ''0000''))"

text \<open>
  \<open>Move.from_uci(uci)\<close>. The library raises InvalidMoveError, a subclass of ValueError,
  for a string that is no move.
\<close>

definition from_uci :: "string \<Rightarrow> exn + move" where
  "from_uci u =
     (if u = ''0000'' then Inr (Move 0 0)
      else if length u = 4 \<and> u ! 1 = CHR ''@'' then
        (case piece_symbols_index (lower_char (u ! 0)) of
           Inl e \<Rightarrow> Inl ValueError
         | Inr d \<Rightarrow>
             (case index_of SQUARE_NAMES (drop 2 u) of
                Inl e \<Rightarrow> Inl ValueError
              | Inr sq \<Rightarrow>
                  Inr \<lparr>from_square = sq, to_square = sq, promotion = None, drop_piece = Some d\<rparr>))
      else if 4 \<le> length u \<and> length u \<le> 5 then
        (case index_of SQUARE_NAMES (take 2 u) of
           Inl e \<Rightarrow> Inl ValueError
         | Inr f \<Rightarrow>
             (case index_of SQUARE_NAMES (take 2 (drop 2 u)) of
                Inl e \<Rightarrow> Inl ValueError
              | Inr t \<Rightarrow>
                  (case (if length u = 5
                         then (case piece_symbols_index (u ! 4) of
                                 Inl e \<Rightarrow> Inl e | Inr p \<Rightarrow> Inr (Some p))
                         else Inr None) of
                     Inl e \<Rightarrow> Inl ValueError
                   | Inr p \<Rightarrow>
                       if f = t then Inl ValueError
                       else Inr \<lparr>from_square = f, to_square = t, promotion = p,
                                 drop_piece = None\<rparr>)))
      else Inl ValueError)"

text \<open>
  \<open>chess.Board\<close>: the pieces on the squares, the side to move and the moves made.
  The other fields of the library's board (castling rights, en-passant square, move
  counters) follow from the moves made since \<open>chess.Board()\<close> and the program reads
  none of them. \<open>Board\<close> is \<open>chess.Board()\<close>, the starting position of chess.
\<close>

record board =
  piece_map :: "square \<Rightarrow> piece option"
  turn :: color
  move_stack :: "move list"

definition piece_at :: "board \<Rightarrow> square \<Rightarrow> piece option" where
  "piece_at b sq = piece_map b sq"

definition back_rank :: "piece_type list" where
  "back_rank = [ROOK, KNIGHT, BISHOP, QUEEN, KING, BISHOP, KNIGHT, ROOK]"

definition starting_piece_map :: "square \<Rightarrow> piece option" where
  "starting_piece_map sq =
     (if sq < 8 then Some (back_rank ! sq, WHITE)
      else if sq < 16 then Some (PAWN, WHITE)
      else if sq < 48 then None
      else if sq < 56 then Some (PAWN, BLACK)
      else if sq < 64 then Some (back_rank ! (sq - 56), BLACK)
      else None)"

definition Board :: board where
  "Board = \<lparr>piece_map = starting_piece_map, turn = WHITE, move_stack = []\<rparr>"

text \<open>
  The rule functions of the library, as parameters. \<open>legal_moves\<close> is what a loop
  \<^verbatim>\<open>for move in board.legal_moves\<close> runs through: the generated legal moves, in the
  order the library generates them. \<open>is_legal\<close> is the test
  \<^verbatim>\<open>move in board.legal_moves\<close>: the library answers it with \<open>board.is_legal(move)\<close>,
  computed from the position and not by a search of the generated moves, and the two
  differ (castling written as the king taking its own rook, e1h1, passes the test and
  is not generated; e1g1 is). \<open>push\<close> is \<open>board.push(move)\<close>, \<open>pop\<close> is \<open>board.pop()\<close>
  (IndexError on an empty move stack) and \<open>is_game_over\<close> is \<open>board.is_game_over()\<close>.
\<close>

record rules =
  legal_moves :: "board \<Rightarrow> move list"
  is_legal :: "board \<Rightarrow> move \<Rightarrow> bool"
  push :: "board \<Rightarrow> move \<Rightarrow> board"
  pop :: "board \<Rightarrow> exn + board"
  is_game_over :: "board \<Rightarrow> bool"

text \<open>
  The chess engine (Stockfish behind \<open>chess.engine\<close>), as a parameter.
  \<open>analyse\<close> is \<^verbatim>\<open>engine.analyse(board, Limit(time=0.1))['score'].relative.score(mate_score=10000)\<close>;
  \<open>Inl\<close> is any exception on the way (no engine, a dead engine, no score in the
  result). The answer of the engine is a function of the position here. No statement
  that can be reached in the class calls \<open>engine.play\<close>.
\<close>

record engine =
  analyse :: "board \<Rightarrow> exn + int"

section \<open>chessai_utils.py: ChessNotationConverter\<close>

text \<open>
  \<^verbatim>\<open>col = ord(square_name[0].upper()) - ord('A'); row = 8 - int(square_name[1])\<close>.
  Indexing a string that is too short raises IndexError. The argument \<open>square_name\<close>
  of the source is \<open>name\<close> here.
\<close>

definition square_to_coordinates :: "string \<Rightarrow> exn + (int \<times> int)" where
  "square_to_coordinates name =
     (case name of
        [] \<Rightarrow> Inl IndexError
      | c0 # rest \<Rightarrow>
          (let col = ord (upper_char c0) - ord CHR ''A'' in
           case rest of
             [] \<Rightarrow> Inl IndexError
           | c1 # _ \<Rightarrow>
               (case int_of_char c1 of
                  Inl e \<Rightarrow> Inl e
                | Inr d \<Rightarrow> Inr (8 - d, col))))"

text \<open>\<^verbatim>\<open>file = chr(ord('A') + col); rank = str(8 - row); return file + rank\<close>\<close>

definition coordinates_to_square :: "int \<Rightarrow> int \<Rightarrow> exn + string" where
  "coordinates_to_square row col =
     (case chr (ord CHR ''A'' + col) of
        Inl e \<Rightarrow> Inl e
      | Inr file \<Rightarrow> Inr (file # str_int (8 - row)))"

section \<open>chessai_utils.py: BoardStateManager\<close>

record board_state_manager =
  current_state :: board
  move_history :: "string list"

text \<open>
  \<open>update_board(move_uci)\<close>: the ValueError of \<open>from_uci\<close> is caught and gives
  \<open>False\<close>; a move that passes the test \<^verbatim>\<open>move in self.current_state.legal_moves\<close> is
  pushed and its text appended to the history; any other move gives \<open>False\<close>. The
  result is the manager after the call and the value returned.
\<close>

definition update_board ::
  "rules \<Rightarrow> board_state_manager \<Rightarrow> string \<Rightarrow> board_state_manager \<times> bool" where
  "update_board R mgr move_uci =
     (case from_uci move_uci of
        Inl e \<Rightarrow> (mgr, False)
      | Inr m \<Rightarrow>
          if is_legal R (current_state mgr) m then
            (mgr\<lparr>current_state := push R (current_state mgr) m,
                 move_history := move_history mgr @ [move_uci]\<rparr>, True)
          else (mgr, False))"

text \<open>
  \<open>get_board_matrix()\<close>: for \<open>rank\<close> from 8 down to 1 and \<open>file\<close> from 0 to 7, 1 where
  \<open>piece_at(chess.square(file, rank - 1))\<close> is a piece and 0 where it is \<open>None\<close>.
\<close>

definition get_board_matrix :: "board_state_manager \<Rightarrow> int list list" where
  "get_board_matrix mgr =
     map (\<lambda>rank. map (\<lambda>file. if piece_at (current_state mgr) (square file (rank - 1)) \<noteq> None
                               then 1 else 0) [0..<8])
         (rev [1..<9])"

section \<open>chessai_utils.py: CommunicationProtocol\<close>

text \<open>
  \<open>s.strip()\<close> removes the white space of Python at both ends: the characters 0x09 to
  0x0D, 0x1C to 0x20, 0x85 and 0xA0.
\<close>

definition is_space :: "char \<Rightarrow> bool" where
  "is_space c = (let n = (of_char c :: nat) in
     (9 \<le> n \<and> n \<le> 13) \<or> (28 \<le> n \<and> n \<le> 32) \<or> n = 133 \<or> n = 160)"

definition strip :: "string \<Rightarrow> string" where
  "strip s = rev (dropWhile is_space (rev (dropWhile is_space s)))"

text \<open>
  \<^verbatim>\<open>message = {'type': msg_type, 'timestamp': int(time.time()), **data}\<close>, then
  \<open>json.dumps(message)\<close>. The clock is the argument \<open>now\<close>.
\<close>

definition create_message :: "int \<Rightarrow> string \<Rightarrow> (string \<times> json) list \<Rightarrow> string" where
  "create_message now msg_type data =
     json_dumps (JObj (dict_merge [(''type'', JStr msg_type), (''timestamp'', JInt now)] data))"

text \<open>
  \<open>parse_message(json_str)\<close>: \<open>json.loads(json_str.strip())\<close>, and \<open>None\<close> when it
  raises JSONDecodeError. No other exception is caught.
\<close>

definition parse_message :: "string \<Rightarrow> exn + json option" where
  "parse_message json_str =
     (case json_loads (strip json_str) of
        Inl e \<Rightarrow> if e = JSONDecodeError then Inr None else Inl e
      | Inr v \<Rightarrow> Inr (Some v))"

text \<open>
  The same function with the decoder as a parameter: \<open>loads\<close> stands for \<open>json.loads\<close>
  with everything it can return or raise, the two limits of the interpreter included.
  \<open>parse_message\<close> is \<open>parse_message_by json_loads\<close>.
\<close>

definition parse_message_by :: "(string \<Rightarrow> exn + json) \<Rightarrow> string \<Rightarrow> exn + json option" where
  "parse_message_by loads json_str =
     (case loads (strip json_str) of
        Inl e \<Rightarrow> if e = JSONDecodeError then Inr None else Inl e
      | Inr v \<Rightarrow> Inr (Some v))"

definition create_board_matrix_message :: "int \<Rightarrow> int list list \<Rightarrow> string" where
  "create_board_matrix_message now matrix =
     create_message now ''board_matrix'' [(''matrix'', JArr (map JInt (concat matrix)))]"

definition create_move_options_message :: "int \<Rightarrow> string \<Rightarrow> string list \<Rightarrow> string" where
  "create_move_options_message now best_move alternatives =
     create_message now ''move_options''
       [(''best_move'', JStr best_move), (''alternatives'', JArr (map JStr alternatives))]"

definition create_ai_move_message :: "int \<Rightarrow> string \<Rightarrow> string \<Rightarrow> string" where
  "create_ai_move_message now from_sq to_sq =
     create_message now ''ai_move'' [(''from'', JStr from_sq), (''to'', JStr to_sq)]"

section \<open>chessai_utils.py: GameValidator\<close>

definition is_valid_square :: "string \<Rightarrow> bool" where
  "is_valid_square name =
     (if length name \<noteq> 2 then False
      else (let file = upper_char (name ! 0); rank = name ! 1 in
            ord CHR ''A'' \<le> ord file \<and> ord file \<le> ord CHR ''H''
            \<and> ord CHR ''1'' \<le> ord rank \<and> ord rank \<le> ord CHR ''8''))"

definition is_valid_move_format :: "string \<Rightarrow> bool" where
  "is_valid_move_format move_str =
     (if length move_str < 4 then False
      else is_valid_square (take 2 move_str) \<and> is_valid_square (take 2 (drop 2 move_str)))"

text \<open>
  \<open>validate_board_setup(matrix)\<close> returns a flag and a message. The messages are the
  constructors here: the number of rows, the first row that has not 8 columns, the
  first cell that is not 0 or 1 (rows and columns counted from 1), the number of
  pieces when it is not 32.
\<close>

datatype setup_result =
  Valid | WrongRows | WrongColumns nat | BadCell nat nat | WrongPieceCount int

fun check_cells :: "nat \<Rightarrow> nat \<Rightarrow> int list \<Rightarrow> setup_result option" where
  "check_cells i j [] = None"
| "check_cells i j (cell # row) =
     (if cell \<noteq> 0 \<and> cell \<noteq> 1 then Some (BadCell (i + 1) (j + 1))
      else check_cells i (j + 1) row)"

fun check_rows :: "nat \<Rightarrow> int list list \<Rightarrow> setup_result option" where
  "check_rows i [] = None"
| "check_rows i (row # rows) =
     (if length row \<noteq> 8 then Some (WrongColumns (i + 1))
      else (case check_cells i 0 row of
              Some r \<Rightarrow> Some r
            | None \<Rightarrow> check_rows (i + 1) rows))"

definition validate_board_setup :: "int list list \<Rightarrow> setup_result" where
  "validate_board_setup matrix =
     (if length matrix \<noteq> 8 then WrongRows
      else (case check_rows 0 matrix of
              Some r \<Rightarrow> r
            | None \<Rightarrow>
                (let total_pieces = sum_list (map sum_list matrix) in
                 if total_pieces \<noteq> 32 then WrongPieceCount total_pieces else Valid)))"

section \<open>raspberry_chessai.py: ChessAIServer\<close>

text \<open>
  The class is read as Python parses it, with one repair: line 49 of the file, the
  \<open>def\<close> of \<open>__init__\<close>, stands two columns to the right of the other methods and is
  taken as if aligned with them.

  The fields of the server that the message handlers read or write. The serial link is
  \<open>serial_open\<close> (\<^verbatim>\<open>self.serial_connection and self.serial_connection.is_open\<close>) and
  \<open>serial_written\<close>, the frames written to it so far. Log output is left out.
\<close>

record server =
  board :: board
  game_started :: bool
  waiting_for_move :: bool
  current_player_move :: "string option"
  serial_open :: bool
  serial_written :: "string list"

text \<open>The state \<open>__init__\<close> leaves, before the serial link is opened.\<close>

definition init_server :: server where
  "init_server = \<lparr>board = Board, game_started = False, waiting_for_move = False,
                   current_player_move = None, serial_open = False, serial_written = []\<rparr>"

text \<open>
  \<open>send_json_message(message)\<close>: with the link open, \<^verbatim>\<open>json.dumps(message) + '\n'\<close> is
  written; otherwise nothing happens. An exception while writing is caught and logged
  by the source; a write that fails on an open link is not modelled.
\<close>

definition send_json_message :: "server \<Rightarrow> json \<Rightarrow> server" where
  "send_json_message s message =
     (if serial_open s
      then s\<lparr>serial_written := serial_written s @ [json_dumps message @ [CHR 0x0A]]\<rparr>
      else s)"

definition get_initial_board_matrix :: "server \<Rightarrow> int list list" where
  "get_initial_board_matrix s =
     map (\<lambda>rank. map (\<lambda>file. if piece_at (board s) (square file (rank - 1)) \<noteq> None
                               then 1 else 0) [0..<8])
         (rev [1..<9])"

definition board_matrix_message :: "int list list \<Rightarrow> json" where
  "board_matrix_message matrix =
     JObj [(''type'', JStr ''board_matrix''), (''matrix'', JArr (map JInt (concat matrix)))]"

definition send_board_matrix :: "server \<Rightarrow> int list list \<Rightarrow> server" where
  "send_board_matrix s matrix = send_json_message s (board_matrix_message matrix)"

text \<open>\<open>[f(x) for x in xs]\<close> where \<open>f\<close> can raise: the first exception ends the loop.\<close>

fun map_exn :: "('a \<Rightarrow> exn + 'b) \<Rightarrow> 'a list \<Rightarrow> exn + 'b list" where
  "map_exn f [] = Inr []"
| "map_exn f (x # xs) =
     (case f x of
        Inl e \<Rightarrow> Inl e
      | Inr y \<Rightarrow> (case map_exn f xs of Inl e \<Rightarrow> Inl e | Inr ys \<Rightarrow> Inr (y # ys)))"

text \<open>\<open>move.uci().upper()\<close>, the text of a move in an outbound message.\<close>

definition wire_form :: "move \<Rightarrow> exn + string" where
  "wire_form m = (case uci m of Inl e \<Rightarrow> Inl e | Inr u \<Rightarrow> Inr (upper u))"

definition move_options_message :: "string \<Rightarrow> string list \<Rightarrow> json" where
  "move_options_message best_move_str alternatives_str =
     JObj [(''type'', JStr ''move_options''), (''best_move'', JStr best_move_str),
           (''alternatives'', JArr (map JStr alternatives_str))]"

text \<open>
  \<open>send_move_options(best_move, alternatives)\<close>: at most 4 alternatives. An exception
  of \<open>uci()\<close> leaves the function before anything is sent.
\<close>

definition send_move_options :: "server \<Rightarrow> move \<Rightarrow> move list \<Rightarrow> server \<times> exn option" where
  "send_move_options s best_move alternatives =
     (case wire_form best_move of
        Inl e \<Rightarrow> (s, Some e)
      | Inr best_move_str \<Rightarrow>
          (case map_exn wire_form (take 4 alternatives) of
             Inl e \<Rightarrow> (s, Some e)
           | Inr alternatives_str \<Rightarrow>
               (send_json_message s (move_options_message best_move_str alternatives_str),
                None)))"


text \<open>\<open>handle_game_start()\<close>\<close>

definition handle_game_start :: "server \<Rightarrow> server" where
  "handle_game_start s =
     (let s1 = s\<lparr>board := Board, game_started := True, waiting_for_move := False\<rparr>;
          board_matrix = get_initial_board_matrix s1
      in send_board_matrix s1 board_matrix)"

text \<open>\<open>get_possible_moves_from_square(square)\<close>\<close>

definition get_possible_moves_from_square :: "rules \<Rightarrow> server \<Rightarrow> square \<Rightarrow> move list" where
  "get_possible_moves_from_square R s sq =
     filter (\<lambda>m. from_square m = sq) (legal_moves R (board s))"

text \<open>
  The loop of \<open>get_best_move_from_options\<close>: every move is pushed, the position is
  analysed, the move is popped, and a score above the best so far replaces it.
  \<open>best_score\<close> starts at \<open>float('-inf')\<close>, which is \<open>None\<close> here: every score is
  above it. The loop returns the board as it leaves it: an exception after the push
  leaves the move on the board.
\<close>

definition score_above :: "int \<Rightarrow> int option \<Rightarrow> bool" where
  "score_above score best_score = (case best_score of None \<Rightarrow> True | Some b \<Rightarrow> b < score)"

fun best_move_loop ::
  "rules \<Rightarrow> engine \<Rightarrow> board \<Rightarrow> move list \<Rightarrow> move \<Rightarrow> int option \<Rightarrow> board \<times> (exn + move)" where
  "best_move_loop R E b [] best_move best_score = (b, Inr best_move)"
| "best_move_loop R E b (m # ms) best_move best_score =
     (let b1 = push R b m in
      case analyse E b1 of
        Inl e \<Rightarrow> (b1, Inl e)
      | Inr score \<Rightarrow>
          (case pop R b1 of
             Inl e \<Rightarrow> (b1, Inl e)
           | Inr b2 \<Rightarrow>
               if score_above score best_score
               then best_move_loop R E b2 ms m (Some score)
               else best_move_loop R E b2 ms best_move best_score))"

text \<open>
  \<open>get_best_move_from_options(moves)\<close>: \<open>None\<close> for no moves; the first move when the
  loop raised; the best move of the loop otherwise. Every path through the \<open>try\<close>
  statement returns, so the statements that follow it in the body of the function
  (lines 501 to 528 of the file) are never run, and they are not modelled.
\<close>

definition get_best_move_from_options ::
  "rules \<Rightarrow> engine \<Rightarrow> server \<Rightarrow> move list \<Rightarrow> server \<times> move option" where
  "get_best_move_from_options R E s moves =
     (case moves of
        [] \<Rightarrow> (s, None)
      | m0 # _ \<Rightarrow>
          (case best_move_loop R E (board s) moves m0 None of
             (b, Inl e) \<Rightarrow> (s\<lparr>board := b\<rparr>, Some m0)
           | (b, Inr best_move) \<Rightarrow> (s\<lparr>board := b\<rparr>, Some best_move)))"

text \<open>
  The handlers below return the server as they leave it and the exception they leave
  with, if any. \<open>process_received_message\<close> catches that exception and logs it.
\<close>

text \<open>
  \<open>handle_player_move_origin(data)\<close>. Only ValueError is caught inside. The list of
  possible moves is not empty where the best move is computed, so that one is found.
\<close>

definition handle_player_move_origin ::
  "rules \<Rightarrow> engine \<Rightarrow> server \<Rightarrow> (string \<times> json) list \<Rightarrow> server \<times> exn option" where
  "handle_player_move_origin R E s data =
     (let from_sq = dict_get data ''from'' (JStr '''') in
      if \<not> truthy from_sq then (s, None)
      else
        (case str_lower from_sq of
           Inl e \<Rightarrow> (s, Some e)
         | Inr name \<Rightarrow>
             (case parse_square name of
                Inl e \<Rightarrow> (s, None)
              | Inr sq \<Rightarrow>
                  (case piece_at (board s) sq of
                     None \<Rightarrow> (s, None)
                   | Some piece \<Rightarrow>
                       if snd piece \<noteq> WHITE then (s, None)
                       else if turn (board s) \<noteq> WHITE then (s, None)
                       else
                         (let possible_moves = get_possible_moves_from_square R s sq in
                          if possible_moves = [] then (s, None)
                          else
                            (case get_best_move_from_options R E s possible_moves of
                               (s1, None) \<Rightarrow> (s1, Some AttributeError)
                             | (s1, Some best_move) \<Rightarrow>
                                 (let alternatives =
                                        take 3 (filter (\<lambda>m. m \<noteq> best_move) possible_moves)
                                  in case send_move_options s1 best_move alternatives of
                                       (s2, Some e) \<Rightarrow>
                                         if e = ValueError then (s2, None) else (s2, Some e)
                                     | (s2, None) \<Rightarrow>
                                         (s2\<lparr>current_player_move :=
                                                Some (case from_sq of JStr x \<Rightarrow> x | _ \<Rightarrow> []),
                                              waiting_for_move := True\<rparr>, None))))))))"

text \<open>\<open>handle_game_over()\<close>: the result is logged and the game is no longer started.\<close>

definition handle_game_over :: "server \<Rightarrow> server" where
  "handle_game_over s = s\<lparr>game_started := False\<rparr>"

text \<open>
  \<open>handle_player_move_complete(data)\<close>. The ValueError of \<open>from_uci\<close> (and of
  \<open>parse_square\<close> in the logging of a rejected move) is caught inside, and the last
  line clears \<open>waiting_for_move\<close>; the \<open>return\<close> statements and the exceptions that
  are not a ValueError leave before that line.

  A move that passes the test \<^verbatim>\<open>move in self.board.legal_moves\<close> is pushed. When the
  game is not over after it, the handler calls \<open>self.calculate_and_send_ai_move()\<close>.
  The class has no method of that name: the words \<open>def calculate_and_send_ai_move\<close>
  stand at the end of line 500 inside a comment, and the lines meant as its body are
  the unreachable end of \<open>get_best_move_from_options\<close>. The call raises
  AttributeError with the move on the board; nothing is sent and \<open>waiting_for_move\<close>
  is not cleared.
\<close>

definition handle_player_move_complete ::
  "rules \<Rightarrow> server \<Rightarrow> (string \<times> json) list \<Rightarrow> server \<times> exn option" where
  "handle_player_move_complete R s data =
     (let from_sq = dict_get data ''from'' (JStr '''');
          to_sq = dict_get data ''to'' (JStr '''')
      in if \<not> truthy from_sq \<or> \<not> truthy to_sq then (s, None)
         else
           (case str_lower from_sq of
              Inl e \<Rightarrow> (s, Some e)
            | Inr f \<Rightarrow>
                (case str_lower to_sq of
                   Inl e \<Rightarrow> (s, Some e)
                 | Inr t \<Rightarrow>
                     (case from_uci (f @ t) of
                        Inl e \<Rightarrow> (s\<lparr>waiting_for_move := False\<rparr>, None)
                      | Inr m \<Rightarrow>
                          if is_legal R (board s) m then
                            (let s1 = s\<lparr>board := push R (board s) m\<rparr> in
                             if is_game_over R (board s1) then (handle_game_over s1, None)
                             else (s1, Some AttributeError))
                          else (s\<lparr>waiting_for_move := False\<rparr>, None)))))"

text \<open>\<open>handle_ai_move_confirmed()\<close>\<close>

definition handle_ai_move_confirmed :: "rules \<Rightarrow> server \<Rightarrow> server" where
  "handle_ai_move_confirmed R s =
     (let s1 = s\<lparr>waiting_for_move := False\<rparr> in
      if is_game_over R (board s1) then handle_game_over s1 else s1)"

text \<open>
  \<open>process_received_message(message)\<close>: the frame is decoded by \<open>json.loads\<close>, the
  parameter \<open>loads\<close>, and dispatched on its \<open>type\<close>. Every exception is caught: a
  frame that does not decode (whatever the decoder raises), a JSON value that is no
  \<open>dict\<close> (\<open>data.get\<close> raises AttributeError) and an exception of a handler leave the
  server as it is at that point. The result is \<open>None\<close> only for a frame outside the
  modelled fragment of JSON.
\<close>

definition process_received_message ::
  "(string \<Rightarrow> exn + json) \<Rightarrow> rules \<Rightarrow> engine \<Rightarrow> server \<Rightarrow> string \<Rightarrow> server option" where
  "process_received_message loads R E s message =
     (case loads message of
        Inl e \<Rightarrow> if e = Unmodelled then None else Some s
      | Inr (JObj data) \<Rightarrow>
          (let message_type = dict_get data ''type'' (JStr '''') in
           if message_type = JStr ''game_start'' then Some (handle_game_start s)
           else if message_type = JStr ''player_move''
             then Some (fst (handle_player_move_origin R E s data))
           else if message_type = JStr ''player_move_complete''
             then Some (fst (handle_player_move_complete R s data))
           else if message_type = JStr ''ai_move_confirmed''
             then Some (handle_ai_move_confirmed R s)
           else Some s)
      | Inr _ \<Rightarrow> Some s)"

text \<open>
  The scores the engine returns in the loop of \<open>get_best_move_from_options\<close>, one for
  each move in turn, when every analysis and every pop succeeds; the first exception
  otherwise.
\<close>

fun candidate_scores :: "rules \<Rightarrow> engine \<Rightarrow> board \<Rightarrow> move list \<Rightarrow> exn + int list" where
  "candidate_scores R E b [] = Inr []"
| "candidate_scores R E b (m # ms) =
     (case analyse E (push R b m) of
        Inl e \<Rightarrow> Inl e
      | Inr score \<Rightarrow>
          (case pop R (push R b m) of
             Inl e \<Rightarrow> Inl e
           | Inr b2 \<Rightarrow>
               (case candidate_scores R E b2 ms of
                  Inl e \<Rightarrow> Inl e
                | Inr scores \<Rightarrow> Inr (score # scores))))"

text \<open>
  What the loop of \<open>get_best_move_from_options\<close> has achieved when it ends with the
  move \<open>r\<close>, from the best move \<open>bm\<close> with the score \<open>x\<close>: either no score was above
  \<open>x\<close> and \<open>bm\<close> stays, or \<open>r\<close> is the first move with the greatest score.
\<close>

definition loop_post :: "move list \<Rightarrow> int list \<Rightarrow> move \<Rightarrow> int \<Rightarrow> move \<Rightarrow> bool" where
  "loop_post ms scs bm x r =
     ((r = bm \<and> (\<forall>j < length ms. scs ! j \<le> x))
       \<or> (\<exists>i < length ms. r = ms ! i \<and> x < scs ! i
             \<and> (\<forall>j < length ms. scs ! j \<le> scs ! i) \<and> (\<forall>j < i. scs ! j < scs ! i)))"

text \<open>The occupancy matrix of the starting position, rank 8 first.\<close>

definition start_matrix :: "int list list" where
  "start_matrix =
     [[1, 1, 1, 1, 1, 1, 1, 1], [1, 1, 1, 1, 1, 1, 1, 1],
      [0, 0, 0, 0, 0, 0, 0, 0], [0, 0, 0, 0, 0, 0, 0, 0],
      [0, 0, 0, 0, 0, 0, 0, 0], [0, 0, 0, 0, 0, 0, 0, 0],
      [1, 1, 1, 1, 1, 1, 1, 1], [1, 1, 1, 1, 1, 1, 1, 1]]"

section \<open>An instance of the parameters\<close>

text \<open>
  The evaluations on concrete inputs below need rule functions and an engine that
  compute. \<open>opening_rules\<close> are the rules of chess on the first move of a game: in the
  starting position, with no move made, the legal moves are the twenty opening moves,
  in the order python-chess generates them; a move carries the piece of its origin
  square to its destination square and passes the turn, and unmaking it carries the
  piece back (nothing can be captured on the first move); the game is not over. In
  the starting position the test \<open>is_legal\<close> accepts the twenty opening moves and no
  other move (no castling is possible there).
  \<open>level_engine\<close> scores every position 0; \<open>square_engine\<close> scores a position by the
  destination square of the last move. \<open>exhausted_loads\<close> is \<open>json.loads\<close> called with
  no stack left: RecursionError, whatever the text.
\<close>

definition opening_moves :: "move list" where
  "opening_moves = map (\<lambda>(f, t). Move f t)
     [(6, 23), (6, 21), (1, 18), (1, 16),
      (15, 23), (14, 22), (13, 21), (12, 20), (11, 19), (10, 18), (9, 17), (8, 16),
      (15, 31), (14, 30), (13, 29), (12, 28), (11, 27), (10, 26), (9, 25), (8, 24)]"

definition other :: "color \<Rightarrow> color" where
  "other c = (case c of WHITE \<Rightarrow> BLACK | BLACK \<Rightarrow> WHITE)"

definition make_move :: "board \<Rightarrow> move \<Rightarrow> board" where
  "make_move b m =
     b\<lparr>piece_map := (piece_map b)(from_square m := None,
                                  to_square m := piece_map b (from_square m)),
       turn := other (turn b),
       move_stack := move_stack b @ [m]\<rparr>"

definition unmake_move :: "board \<Rightarrow> exn + board" where
  "unmake_move b =
     (case rev (move_stack b) of
        [] \<Rightarrow> Inl IndexError
      | m # ms \<Rightarrow>
          Inr (b\<lparr>piece_map := (piece_map b)(to_square m := None,
                                            from_square m := piece_map b (to_square m)),
                 turn := other (turn b),
                 move_stack := rev ms\<rparr>))"

definition opening_rules :: rules where
  "opening_rules =
     \<lparr>legal_moves = (\<lambda>b. if move_stack b = [] \<and> turn b = WHITE then opening_moves else []),
      is_legal = (\<lambda>b m. move_stack b = [] \<and> turn b = WHITE \<and> m \<in> set opening_moves),
      push = make_move,
      pop = unmake_move,
      is_game_over = (\<lambda>b. False)\<rparr>"

definition level_engine :: engine where
  "level_engine = \<lparr>analyse = (\<lambda>b. Inr 0)\<rparr>"

definition square_engine :: engine where
  "square_engine =
     \<lparr>analyse = (\<lambda>b. case rev (move_stack b) of
                         [] \<Rightarrow> Inl EngineError
                       | m # _ \<Rightarrow> Inr (int (to_square m)))\<rparr>"


text \<open>A server in its first state with the serial link open.\<close>

definition idle_server :: server where
  "idle_server = init_server\<lparr>serial_open := True\<rparr>"

section \<open>Properties\<close>

subsection \<open>Square notation\<close>

lemma char_of_eq_small:
  "n < 256 \<Longrightarrow> (char_of (n::nat) = c) = (n = of_char c)"
  by (simp add: char_of_eq_iff take_bit_nat_eq_self)

lemma of_char_of_small: "n < 256 \<Longrightarrow> (of_char (char_of (n::nat)) :: nat) = n"
  by simp

lemma str_nat_digit: "n < 10 \<Longrightarrow> str_nat n = [digit_char n]"
  by (simp add: str_nat.simps)

lemma square_to_coordinates_name:
  assumes "f \<in> set ''ABCDEFGH''" and "r \<in> set ''12345678''"
  shows "\<exists>row col. square_to_coordinates [f, r] = Inr (row, col)
           \<and> coordinates_to_square row col = Inr [f, r]"
proof -
  have f: "upper_char f = f" "65 \<le> ord f" "ord f \<le> 72" "char_of (nat (ord f)) = f"
    using assms(1) by (auto simp: upper_char_def ord_def char_of_eq_small)
  have r: "int_of_char r = Inr (int (digit_val r))" "1 \<le> digit_val r" "digit_val r \<le> 8"
    "digit_char (8 - (8 - digit_val r)) = r"
    using assms(2)
    by (auto simp: int_of_char_def is_digit_def digit_val_def digit_char_def char_of_eq_small)
  have "square_to_coordinates [f, r] = Inr (8 - int (digit_val r), ord f - 65)"
    using f(1) r(1) by (simp add: square_to_coordinates_def ord_def)
  moreover have "coordinates_to_square (8 - int (digit_val r)) (ord f - 65) = Inr [f, r]"
  proof -
    have "nat (int (digit_val r)) < 10" using r(3) by simp
    then have "str_int (8 - (8 - int (digit_val r))) = [digit_char (digit_val r)]"
      using r(2) by (simp add: str_int_def str_nat_digit)
    moreover have "digit_char (digit_val r) = r"
      using r(2,3,4) by simp
    moreover have "chr (ord CHR ''A'' + (ord f - 65)) = Inr f"
      using f(2,3,4) by (simp add: chr_def ord_def)
    ultimately show ?thesis
      by (simp add: coordinates_to_square_def)
  qed
  ultimately show ?thesis by blast
qed

lemma coordinates_to_square_coords:
  assumes "0 \<le> row" "row \<le> 7" "0 \<le> col" "col \<le> 7"
  shows "\<exists>name. coordinates_to_square row col = Inr name
           \<and> square_to_coordinates name = Inr (row, col)"
proof -
  define f :: char where "f = char_of (nat (65 + col))"
  define d where "d = nat (8 - row)"
  have d: "1 \<le> d" "d \<le> 8" "int d = 8 - row"
    using assms(1,2) by (auto simp: d_def)
  have fo: "(of_char f :: nat) = nat (65 + col)"
    using assms(3,4) by (simp add: f_def)
  have "chr (ord CHR ''A'' + col) = Inr f"
    using assms(3,4) by (simp add: chr_def ord_def f_def)
  moreover have "str_int (8 - row) = [digit_char d]"
    using d by (simp add: str_int_def str_nat_digit d_def)
  ultimately have c: "coordinates_to_square row col = Inr [f, digit_char d]"
    by (simp add: coordinates_to_square_def)
  have "(of_char f :: nat) \<le> 72"
    using assms(4) fo by simp
  then have "upper_char f = f"
    by (simp add: upper_char_def Let_def)
  moreover have "ord f - ord CHR ''A'' = col"
    using assms(3,4) fo by (simp add: ord_def)
  moreover have "int_of_char (digit_char d) = Inr (int d)"
    using d(1,2) by (simp add: int_of_char_def is_digit_def digit_val_def digit_char_def)
  ultimately have "square_to_coordinates [f, digit_char d] = Inr (row, col)"
    using d(3) by (simp add: square_to_coordinates_def)
  with c show ?thesis by blast
qed

text \<open>
  C10. The two converters are mutual inverses on their valid domains: for a square name
  made of a letter A to H and a digit 1 to 8, converting to coordinates and back returns
  the name; for a row and a column between 0 and 7, converting to a name and back
  returns the row and the column.
\<close>

theorem converters_mutually_inverse:
  "(f \<in> set ''ABCDEFGH'' \<and> r \<in> set ''12345678'' \<longrightarrow>
      (\<exists>row col. square_to_coordinates [f, r] = Inr (row, col)
         \<and> coordinates_to_square row col = Inr [f, r]))
   \<and> (0 \<le> row \<and> row \<le> 7 \<and> 0 \<le> col \<and> col \<le> 7 \<longrightarrow>
      (\<exists>name. coordinates_to_square row col = Inr name
         \<and> square_to_coordinates name = Inr (row, col)))"
  using square_to_coordinates_name [of f r] coordinates_to_square_coords [of row col]
  by blast

theorem converters_mutually_inverse_witness:
  "(CHR ''E'' \<in> set ''ABCDEFGH'' \<and> CHR ''2'' \<in> set ''12345678'')
   \<and> (\<exists>row col. square_to_coordinates ''E2'' = Inr (row, col)
         \<and> coordinates_to_square row col = Inr ''E2'')
   \<and> ((0::int) \<le> 6 \<and> (6::int) \<le> 7 \<and> (0::int) \<le> 4 \<and> (4::int) \<le> 7)
   \<and> (\<exists>name. coordinates_to_square 6 4 = Inr name
         \<and> square_to_coordinates name = Inr (6, 4))"
  using converters_mutually_inverse [of "CHR ''E''" "CHR ''2''" 6 4]
  by simp

subsection \<open>The occupancy matrix\<close>

lemma upt_0_8: "[0..<8] = [0, 1, 2, 3, 4, 5, 6, 7]"
  by (simp add: upt_rec)

lemma rev_upt_1_9: "rev [1..<9] = [8, 7, 6, 5, 4, 3, 2, 1::nat]"
  by (simp add: upt_rec)

lemma initial_matrix_length: "length (concat (get_initial_board_matrix s)) = 64"
  unfolding get_initial_board_matrix_def rev_upt_1_9 upt_0_8 by simp

lemma initial_matrix_bits: "set (concat (get_initial_board_matrix s)) \<subseteq> {0, 1}"
  by (auto simp: get_initial_board_matrix_def)

lemma board_matrix_length: "length (concat (get_board_matrix mgr)) = 64"
  unfolding get_board_matrix_def rev_upt_1_9 upt_0_8 by simp

lemma board_matrix_bits: "set (concat (get_board_matrix mgr)) \<subseteq> {0, 1}"
  by (auto simp: get_board_matrix_def)

lemma initial_matrix_start:
  "board s = Board \<Longrightarrow> get_initial_board_matrix s = start_matrix"
  unfolding get_initial_board_matrix_def rev_upt_1_9 upt_0_8 start_matrix_def
  by (simp add: piece_at_def Board_def square_def starting_piece_map_def)

lemma board_matrix_start:
  "current_state mgr = Board \<Longrightarrow> get_board_matrix mgr = start_matrix"
  unfolding get_board_matrix_def rev_upt_1_9 upt_0_8 start_matrix_def
  by (simp add: piece_at_def Board_def square_def starting_piece_map_def)

lemma start_matrix_sum: "sum_list (concat start_matrix) = 32"
  by (simp add: start_matrix_def)

lemma start_matrix_valid: "validate_board_setup start_matrix = Valid"
  by (simp add: start_matrix_def validate_board_setup_def)

lemma board_handle_game_start: "board (handle_game_start s) = Board"
  by (simp add: handle_game_start_def send_board_matrix_def send_json_message_def Let_def)

text \<open>
  C4. For every board, of the server and of the board state manager, the flattened
  occupancy matrix has exactly 64 entries and every entry is 0 or 1. Right after a
  reset to the starting position (\<open>handle_game_start\<close>, a new manager) its entries sum
  to 32, and \<open>validate_board_setup\<close> accepts the matrix.
\<close>

theorem occupancy_matrix_invariant:
  "length (concat (get_initial_board_matrix s)) = 64
   \<and> set (concat (get_initial_board_matrix s)) \<subseteq> {0, 1}
   \<and> length (concat (get_board_matrix mgr)) = 64
   \<and> set (concat (get_board_matrix mgr)) \<subseteq> {0, 1}
   \<and> sum_list (concat (get_initial_board_matrix (handle_game_start s))) = 32
   \<and> validate_board_setup (get_initial_board_matrix (handle_game_start s)) = Valid
   \<and> sum_list (concat (get_board_matrix \<lparr>current_state = Board, move_history = []\<rparr>)) = 32
   \<and> validate_board_setup (get_board_matrix \<lparr>current_state = Board, move_history = []\<rparr>)
       = Valid"
  by (intro conjI initial_matrix_length initial_matrix_bits board_matrix_length
      board_matrix_bits)
    (simp_all add: initial_matrix_start board_matrix_start board_handle_game_start
      start_matrix_sum start_matrix_valid)

theorem occupancy_matrix_invariant_witness:
  "length (concat (get_initial_board_matrix idle_server)) = 64
   \<and> set (concat (get_initial_board_matrix idle_server)) \<subseteq> {0, 1}
   \<and> sum_list (concat (get_initial_board_matrix (handle_game_start idle_server))) = 32"
  using occupancy_matrix_invariant [of idle_server "\<lparr>current_state = Board, move_history = []\<rparr>"]
  by blast

subsection \<open>The legal moves from a square\<close>

text \<open>
  C5. Every move that \<open>get_possible_moves_from_square\<close> returns for a square starts on
  that square and is one of the legal moves of the position.
\<close>

theorem moves_from_square_are_legal:
  "\<forall>m \<in> set (get_possible_moves_from_square R s sq).
     from_square m = sq \<and> m \<in> set (legal_moves R (board s))"
  by (simp add: get_possible_moves_from_square_def)

theorem moves_from_square_are_legal_witness:
  "get_possible_moves_from_square opening_rules idle_server 12 = [Move 12 20, Move 12 28]
   \<and> from_square (Move 12 20) = 12 \<and> from_square (Move 12 28) = 12
   \<and> Move 12 20 \<in> set (legal_moves opening_rules (board idle_server))
   \<and> Move 12 28 \<in> set (legal_moves opening_rules (board idle_server))"
proof -
  have e: "get_possible_moves_from_square opening_rules idle_server 12
             = [Move 12 20, Move 12 28]"
    by (simp add: get_possible_moves_from_square_def opening_rules_def idle_server_def
        init_server_def Board_def opening_moves_def Move_def)
  show ?thesis
    using moves_from_square_are_legal [of opening_rules idle_server 12] unfolding e
    by simp
qed

subsection \<open>The best move\<close>

lemma loop_post_keep:
  "loop_post ms scs bm x r \<Longrightarrow> sc \<le> x \<Longrightarrow> loop_post (m # ms) (sc # scs) bm x r"
  unfolding loop_post_def
proof (elim disjE exE conjE)
  assume "r = bm" "\<forall>j<length ms. scs ! j \<le> x" "sc \<le> x"
  then have "r = bm \<and> (\<forall>j<length (m # ms). (sc # scs) ! j \<le> x)"
    by (auto simp: nth_Cons split: nat.splits)
  then show "r = bm \<and> (\<forall>j<length (m # ms). (sc # scs) ! j \<le> x) \<or>
    (\<exists>i<length (m # ms). r = (m # ms) ! i \<and> x < (sc # scs) ! i \<and>
        (\<forall>j<length (m # ms). (sc # scs) ! j \<le> (sc # scs) ! i) \<and>
        (\<forall>j<i. (sc # scs) ! j < (sc # scs) ! i))" by (rule disjI1)
next
  fix i
  assume i: "i < length ms" "r = ms ! i" "x < scs ! i"
    "\<forall>j < length ms. scs ! j \<le> scs ! i" "\<forall>j < i. scs ! j < scs ! i" and "sc \<le> x"
  then have "Suc i < length (m # ms) \<and> r = (m # ms) ! Suc i \<and> x < (sc # scs) ! Suc i
         \<and> (\<forall>j < length (m # ms). (sc # scs) ! j \<le> (sc # scs) ! Suc i)
         \<and> (\<forall>j < Suc i. (sc # scs) ! j < (sc # scs) ! Suc i)"
    by (auto simp: nth_Cons split: nat.splits)
  then show "r = bm \<and> (\<forall>j<length (m # ms). (sc # scs) ! j \<le> x) \<or>
    (\<exists>i<length (m # ms). r = (m # ms) ! i \<and> x < (sc # scs) ! i \<and>
        (\<forall>j<length (m # ms). (sc # scs) ! j \<le> (sc # scs) ! i) \<and>
        (\<forall>j<i. (sc # scs) ! j < (sc # scs) ! i))" by blast
qed

lemma loop_post_take:
  "loop_post ms scs m sc r \<Longrightarrow> x < sc \<Longrightarrow> loop_post (m # ms) (sc # scs) bm x r"
  unfolding loop_post_def
proof (elim disjE exE conjE)
  assume "r = m" "\<forall>j<length ms. scs ! j \<le> sc" "x < sc"
  then have "0 < length (m # ms) \<and> r = (m # ms) ! 0 \<and> x < (sc # scs) ! 0
         \<and> (\<forall>j < length (m # ms). (sc # scs) ! j \<le> (sc # scs) ! 0)
         \<and> (\<forall>j < (0::nat). (sc # scs) ! j < (sc # scs) ! 0)"
    by (auto simp: nth_Cons split: nat.splits)
  then show "r = bm \<and> (\<forall>j<length (m # ms). (sc # scs) ! j \<le> x) \<or>
    (\<exists>i<length (m # ms). r = (m # ms) ! i \<and> x < (sc # scs) ! i \<and>
        (\<forall>j<length (m # ms). (sc # scs) ! j \<le> (sc # scs) ! i) \<and>
        (\<forall>j<i. (sc # scs) ! j < (sc # scs) ! i))" by blast
next
  fix i
  assume i: "i < length ms" "r = ms ! i" "sc < scs ! i"
    "\<forall>j < length ms. scs ! j \<le> scs ! i" "\<forall>j < i. scs ! j < scs ! i" and "x < sc"
  then have "Suc i < length (m # ms) \<and> r = (m # ms) ! Suc i \<and> x < (sc # scs) ! Suc i
         \<and> (\<forall>j < length (m # ms). (sc # scs) ! j \<le> (sc # scs) ! Suc i)
         \<and> (\<forall>j < Suc i. (sc # scs) ! j < (sc # scs) ! Suc i)"
    by (auto simp: nth_Cons split: nat.splits)
  then show "r = bm \<and> (\<forall>j<length (m # ms). (sc # scs) ! j \<le> x) \<or>
    (\<exists>i<length (m # ms). r = (m # ms) ! i \<and> x < (sc # scs) ! i \<and>
        (\<forall>j<length (m # ms). (sc # scs) ! j \<le> (sc # scs) ! i) \<and>
        (\<forall>j<i. (sc # scs) ! j < (sc # scs) ! i))" by blast
qed

lemma best_move_loop_invariant:
  "candidate_scores R E b ms = Inr scs \<Longrightarrow>
   length scs = length ms \<and>
   (\<exists>b' r. best_move_loop R E b ms bm (Some x) = (b', Inr r) \<and> loop_post ms scs bm x r)"
proof (induction ms arbitrary: b bm x scs)
  case Nil
  then show ?case by (simp add: loop_post_def)
next
  case (Cons m ms)
  from Cons.prems obtain sc b2 scs' where
    a: "analyse E (push R b m) = Inr sc" and p: "pop R (push R b m) = Inr b2"
    and c: "candidate_scores R E b2 ms = Inr scs'" and s: "scs = sc # scs'"
    by (auto split: sum.splits)
  show ?case
  proof (cases "x < sc")
    case True
    from Cons.IH [OF c, of m sc] obtain b' r where
      l: "length scs' = length ms" and
      r: "best_move_loop R E b2 ms m (Some sc) = (b', Inr r)" and
      d: "loop_post ms scs' m sc r"
      by blast
    have "best_move_loop R E b (m # ms) bm (Some x) = (b', Inr r)"
      using a p r True by (simp add: score_above_def)
    then show ?thesis
      using l s loop_post_take [OF d True] by simp
  next
    case False
    from Cons.IH [OF c, of bm x] obtain b' r where
      l: "length scs' = length ms" and
      r: "best_move_loop R E b2 ms bm (Some x) = (b', Inr r)" and
      d: "loop_post ms scs' bm x r"
      by blast
    have "best_move_loop R E b (m # ms) bm (Some x) = (b', Inr r)"
      using a p r False by (simp add: score_above_def)
    moreover have "sc \<le> x" using False by simp
    ultimately show ?thesis
      using l s loop_post_keep [OF d] by simp
  qed
qed

text \<open>
  C7, as the code has it. When the engine scores every candidate, the move
  \<open>get_best_move_from_options\<close> returns is the first candidate with the greatest
  score: no candidate has a greater score, and every earlier candidate has a smaller
  one. A later candidate can have the same score.
\<close>

theorem best_move_first_maximal:
  assumes "candidate_scores R E (board s) moves = Inr scores" and "moves \<noteq> []"
  shows "length scores = length moves \<and>
    (\<exists>i < length moves. snd (get_best_move_from_options R E s moves) = Some (moves ! i)
        \<and> (\<forall>j < length moves. scores ! j \<le> scores ! i)
        \<and> (\<forall>j < i. scores ! j < scores ! i))"
proof -
  from assms(2) obtain m ms where mv: "moves = m # ms" by (cases moves) auto
  from assms(1) mv obtain sc b2 scs' where
    a: "analyse E (push R (board s) m) = Inr sc" and p: "pop R (push R (board s) m) = Inr b2"
    and c: "candidate_scores R E b2 ms = Inr scs'" and sc: "scores = sc # scs'"
    by (auto split: sum.splits)
  from best_move_loop_invariant [OF c, of m sc] obtain b' r where
      l: "length scs' = length ms" and
      r: "best_move_loop R E b2 ms m (Some sc) = (b', Inr r)" and
      d: "loop_post ms scs' m sc r"
      by blast
  have run: "best_move_loop R E (board s) (m # ms) m None = (b', Inr r)"
    using a p r by (simp add: score_above_def)
  have g: "snd (get_best_move_from_options R E s moves) = Some r"
    using run mv by (simp add: get_best_move_from_options_def)
  have "loop_post (m # ms) (sc # scs') m (sc - 1) r"
    using loop_post_take [OF d, of "sc - 1"] by simp
  then have "(r = m \<and> (\<forall>j<length (m # ms). (sc # scs') ! j \<le> sc - 1))
      \<or> (\<exists>i<length (m # ms). r = (m # ms) ! i \<and> sc - 1 < (sc # scs') ! i \<and>
        (\<forall>j<length (m # ms). (sc # scs') ! j \<le> (sc # scs') ! i) \<and>
        (\<forall>j<i. (sc # scs') ! j < (sc # scs') ! i))"
    by (simp only: loop_post_def)
  moreover have "\<not> (\<forall>j<length (m # ms). (sc # scs') ! j \<le> sc - 1)"
    by auto
  ultimately have "\<exists>i<length (m # ms). r = (m # ms) ! i \<and>
        (\<forall>j<length (m # ms). (sc # scs') ! j \<le> (sc # scs') ! i) \<and>
        (\<forall>j<i. (sc # scs') ! j < (sc # scs') ! i)"
    by blast
  then show ?thesis using g l unfolding sc mv by simp
qed

theorem best_move_first_maximal_witness:
  "candidate_scores opening_rules square_engine (board idle_server) [Move 12 20, Move 12 28]
     = Inr [20, 28]
   \<and> [Move 12 20, Move 12 28] \<noteq> []
   \<and> length [20, 28 :: int] = length [Move 12 20, Move 12 28]
   \<and> (\<exists>i < length [Move 12 20, Move 12 28].
        snd (get_best_move_from_options opening_rules square_engine idle_server
               [Move 12 20, Move 12 28]) = Some ([Move 12 20, Move 12 28] ! i)
        \<and> (\<forall>j < length [Move 12 20, Move 12 28]. [20, 28 :: int] ! j \<le> [20, 28] ! i)
        \<and> (\<forall>j < i. [20, 28 :: int] ! j < [20, 28] ! i))"
proof -
  have h: "candidate_scores opening_rules square_engine (board idle_server)
             [Move 12 20, Move 12 28] = Inr [20, 28]"
    by (simp add: opening_rules_def square_engine_def make_move_def unmake_move_def Move_def)
  have n: "[Move 12 20, Move 12 28] \<noteq> []"
    by simp
  show ?thesis
    using h n best_move_first_maximal [OF h n] by blast
qed

text \<open>
  C7 as the claim states it fails where two candidates have the same score: the engine
  scores e2e3 and e2e4 both 0, the first is returned, and its score is not above the
  score of the later one.
\<close>

theorem best_move_tie_counterexample:
  "candidate_scores opening_rules level_engine (board idle_server) [Move 12 20, Move 12 28]
     = Inr [0, 0]
   \<and> snd (get_best_move_from_options opening_rules level_engine idle_server
             [Move 12 20, Move 12 28]) = Some ([Move 12 20, Move 12 28] ! 0)
   \<and> [Move 12 20, Move 12 28] ! 1 \<noteq> [Move 12 20, Move 12 28] ! 0
   \<and> \<not> ([0, 0 :: int] ! 1 < [0, 0] ! 0)"
  by (simp add: get_best_move_from_options_def opening_rules_def level_engine_def
      make_move_def unmake_move_def Move_def score_above_def)

subsection \<open>An illegal move\<close>

lemma update_board_rejects:
  assumes "\<forall>m. from_uci move_uci = Inr m \<longrightarrow> \<not> is_legal R (current_state mgr) m"
  shows "update_board R mgr move_uci = (mgr, False)"
  using assms by (auto simp: update_board_def split: sum.splits)

lemma hpmc_illegal:
  assumes "\<forall>f t m. dict_get d ''from'' (JStr '''') = JStr f \<longrightarrow>
             dict_get d ''to'' (JStr '''') = JStr t \<longrightarrow>
             from_uci (lower f @ lower t) = Inr m \<longrightarrow> \<not> is_legal R (board s) m"
  shows "board (fst (handle_player_move_complete R s d)) = board s
       \<and> serial_written (fst (handle_player_move_complete R s d)) = serial_written s
       \<and> game_started (fst (handle_player_move_complete R s d)) = game_started s"
proof -
  obtain x where x: "dict_get d ''from'' (JStr '''') = x" by simp
  obtain y where y: "dict_get d ''to'' (JStr '''') = y" by simp
  show ?thesis
    using assms unfolding handle_player_move_complete_def Let_def x y
    by (cases x; cases y) (auto split: sum.splits)
qed

lemma from_uci_e2e5: "from_uci ''e2e5'' = Inr (Move 12 36)"
  by code_simp

text \<open>
  C6. A move that is not legal in the position changes nothing. Legal is what the
  program asks the library: the test \<^verbatim>\<open>move in board.legal_moves\<close>, which is \<open>is_legal\<close>.
  \<open>update_board\<close> returns \<open>False\<close> for a move that fails it and leaves the manager as
  it was, the board and the move history with it. \<open>handle_player_move_complete\<close>
  leaves the board of the server as it was and sends nothing. A text that is no move
  at all counts as not legal.
\<close>

theorem illegal_move_changes_nothing:
  "((\<forall>m. from_uci move_uci = Inr m \<longrightarrow> \<not> is_legal R (current_state mgr) m) \<longrightarrow>
      update_board R mgr move_uci = (mgr, False)
      \<and> get_board_matrix (fst (update_board R mgr move_uci)) = get_board_matrix mgr
      \<and> move_history (fst (update_board R mgr move_uci)) = move_history mgr)
   \<and> ((\<forall>f t m. dict_get d ''from'' (JStr '''') = JStr f \<longrightarrow>
                dict_get d ''to'' (JStr '''') = JStr t \<longrightarrow>
                from_uci (lower f @ lower t) = Inr m \<longrightarrow> \<not> is_legal R (board s) m) \<longrightarrow>
      board (fst (handle_player_move_complete R s d)) = board s
      \<and> get_initial_board_matrix (fst (handle_player_move_complete R s d))
          = get_initial_board_matrix s
      \<and> serial_written (fst (handle_player_move_complete R s d)) = serial_written s)"
proof (intro conjI impI)
  assume a: "\<forall>m. from_uci move_uci = Inr m \<longrightarrow> \<not> is_legal R (current_state mgr) m"
  show "update_board R mgr move_uci = (mgr, False)"
    using update_board_rejects [OF a] .
  then show "get_board_matrix (fst (update_board R mgr move_uci)) = get_board_matrix mgr"
    and "move_history (fst (update_board R mgr move_uci)) = move_history mgr"
    by simp_all
next
  assume a: "\<forall>f t m. dict_get d ''from'' (JStr '''') = JStr f \<longrightarrow>
                dict_get d ''to'' (JStr '''') = JStr t \<longrightarrow>
                from_uci (lower f @ lower t) = Inr m \<longrightarrow> \<not> is_legal R (board s) m"
  show b: "board (fst (handle_player_move_complete R s d)) = board s"
    and "serial_written (fst (handle_player_move_complete R s d)) = serial_written s"
    using hpmc_illegal [OF a] by simp_all
  show "get_initial_board_matrix (fst (handle_player_move_complete R s d))
          = get_initial_board_matrix s"
    using b by (simp add: get_initial_board_matrix_def)
qed

theorem illegal_move_changes_nothing_witness:
  "from_uci ''e2e5'' = Inr (Move 12 36)
   \<and> \<not> is_legal opening_rules Board (Move 12 36)
   \<and> update_board opening_rules \<lparr>current_state = Board, move_history = []\<rparr> ''e2e5''
        = (\<lparr>current_state = Board, move_history = []\<rparr>, False)
   \<and> board (fst (handle_player_move_complete opening_rules idle_server
                    [(''from'', JStr ''E2''), (''to'', JStr ''E5'')])) = board idle_server
   \<and> serial_written (fst (handle_player_move_complete opening_rules idle_server
                    [(''from'', JStr ''E2''), (''to'', JStr ''E5'')])) = serial_written idle_server"
proof -
  have n: "\<not> is_legal opening_rules Board (Move 12 36)"
    by (simp add: opening_rules_def Board_def opening_moves_def Move_def)
  have 1: "\<forall>m. from_uci ''e2e5'' = Inr m \<longrightarrow>
      \<not> is_legal opening_rules
                 (current_state \<lparr>current_state = Board, move_history = []\<rparr>) m"
    using n by (simp add: from_uci_e2e5)
  have l: "lower ''E2'' @ lower ''E5'' = ''e2e5''"
    by code_simp
  have 2: "\<forall>f t m. dict_get [(''from'', JStr ''E2''), (''to'', JStr ''E5'')] ''from'' (JStr '''')
                = JStr f \<longrightarrow>
             dict_get [(''from'', JStr ''E2''), (''to'', JStr ''E5'')] ''to'' (JStr '''') = JStr t \<longrightarrow>
             from_uci (lower f @ lower t) = Inr m \<longrightarrow>
             \<not> is_legal opening_rules (board idle_server) m"
    using n l by (auto simp: dict_get_def from_uci_e2e5 idle_server_def init_server_def)
  show ?thesis
    using illegal_move_changes_nothing [of "''e2e5''" opening_rules
        "\<lparr>current_state = Board, move_history = []\<rparr>"
        "[(''from'', JStr ''E2''), (''to'', JStr ''E5'')]" idle_server]
      1 2 n from_uci_e2e5
    by blast
qed

subsection \<open>A move completed in any state\<close>




lemma hpmc_missing_method:
  assumes "dict_get d ''from'' (JStr '''') = JStr f" and "f \<noteq> []"
    and "dict_get d ''to'' (JStr '''') = JStr t" and "t \<noteq> []"
    and "from_uci (lower f @ lower t) = Inr m" and "is_legal R (board s) m"
    and "\<not> is_game_over R (push R (board s) m)"
  shows "handle_player_move_complete R s d = (s\<lparr>board := push R (board s) m\<rparr>, Some AttributeError)"
  using assms unfolding handle_player_move_complete_def Let_def
  by simp




subsection \<open>The start of a game\<close>

lemma board_matrix_message_start:
  "board_matrix_message start_matrix =
     JObj [(''type'', JStr ''board_matrix''),
           (''matrix'', JArr (map JInt (replicate 16 1 @ replicate 32 0 @ replicate 16 1)))]"
  by (simp add: board_matrix_message_def start_matrix_def numeral_eq_Suc)

lemma board_matrix_frame:
  \<open>json_dumps (JObj [(''type'', JStr ''board_matrix''),
       (''matrix'', JArr (map JInt (replicate 16 1 @ replicate 32 0 @ replicate 16 1)))])
     @ [CHR 0x0A]
   = ''{"type": "board_matrix", "matrix": [1, 1, 1, 1, 1, 1, 1, 1, 1, 1, 1, 1, 1, 1, 1, 1, ''
             @ ''0, 0, 0, 0, 0, 0, 0, 0, 0, 0, 0, 0, 0, 0, 0, 0, ''
             @ ''0, 0, 0, 0, 0, 0, 0, 0, 0, 0, 0, 0, 0, 0, 0, 0, ''
             @ ''1, 1, 1, 1, 1, 1, 1, 1, 1, 1, 1, 1, 1, 1, 1, 1]}'' @ [CHR 0x0A]\<close>
  by code_simp

lemma handle_game_start_sends:
  "handle_game_start s =
     send_json_message (s\<lparr>board := Board, game_started := True, waiting_for_move := False\<rparr>)
       (JObj [(''type'', JStr ''board_matrix''),
              (''matrix'', JArr (map JInt (replicate 16 1 @ replicate 32 0 @ replicate 16 1)))])"
proof -
  have "get_initial_board_matrix
          (s\<lparr>board := Board, game_started := True, waiting_for_move := False\<rparr>) = start_matrix"
    by (rule initial_matrix_start) simp
  then show ?thesis
    by (simp only: handle_game_start_def send_board_matrix_def Let_def
        board_matrix_message_start)
qed

lemma send_json_message_fields:
  "board (send_json_message s m) = board s"
  "game_started (send_json_message s m) = game_started s"
  "waiting_for_move (send_json_message s m) = waiting_for_move s"
  "serial_open (send_json_message s m) = serial_open s"
  by (simp_all add: send_json_message_def)

text \<open>
  C8. A \<open>game_start\<close> message, in whatever state the server is, puts the board back to
  the starting position with no move made, whose occupancy matrix has 32 pieces, sends
  one \<open>board_matrix\<close> message with that matrix (one call of \<open>send_json_message\<close>, which
  writes one frame when the serial link is open and none when it is closed), and
  leaves a game started with no move awaited: the state that waits for the origin
  square. The message is the \<open>dict\<close> with the type \<open>board_matrix\<close> and the 64 entries
  of the matrix, rank 8 first: sixteen 1, thirty-two 0, sixteen 1. A second
  \<open>game_start\<close> does the same again.
\<close>

theorem game_start_resets:
  assumes "loads frame = Inr (JObj d)"
    and "dict_get d ''type'' (JStr '''') = JStr ''game_start''"
  shows \<open>\<exists>s1 s2. process_received_message loads R E s frame = Some s1
      \<and> s1 = send_json_message
                (s\<lparr>board := Board, game_started := True, waiting_for_move := False\<rparr>)
                (JObj [(''type'', JStr ''board_matrix''),
                       (''matrix'', JArr (map JInt (replicate 16 1 @ replicate 32 0 @ replicate 16 1)))])
      \<and> board s1 = Board \<and> move_stack (board s1) = []
      \<and> concat (get_initial_board_matrix s1) = replicate 16 1 @ replicate 32 0 @ replicate 16 1
      \<and> sum_list (concat (get_initial_board_matrix s1)) = 32
      \<and> game_started s1 \<and> \<not> waiting_for_move s1
      \<and> (serial_open s \<longrightarrow>
           serial_written s1 = serial_written s @ [''{"type": "board_matrix", "matrix": [1, 1, 1, 1, 1, 1, 1, 1, 1, 1, 1, 1, 1, 1, 1, 1, ''
             @ ''0, 0, 0, 0, 0, 0, 0, 0, 0, 0, 0, 0, 0, 0, 0, 0, ''
             @ ''0, 0, 0, 0, 0, 0, 0, 0, 0, 0, 0, 0, 0, 0, 0, 0, ''
             @ ''1, 1, 1, 1, 1, 1, 1, 1, 1, 1, 1, 1, 1, 1, 1, 1]}'' @ [CHR 0x0A]])
      \<and> (\<not> serial_open s \<longrightarrow> serial_written s1 = serial_written s)
      \<and> process_received_message loads R E s1 frame = Some s2
      \<and> s2 = send_json_message s1
                (JObj [(''type'', JStr ''board_matrix''),
                       (''matrix'', JArr (map JInt (replicate 16 1 @ replicate 32 0 @ replicate 16 1)))])
      \<and> board s2 = board s1 \<and> game_started s2 \<and> \<not> waiting_for_move s2\<close>
proof -
  let ?m = "JObj [(''type'', JStr ''board_matrix''),
       (''matrix'', JArr (map JInt (replicate 16 1 @ replicate 32 0 @ replicate 16 1)))]"
  let ?s1 = "send_json_message
               (s\<lparr>board := Board, game_started := True, waiting_for_move := False\<rparr>) ?m"
  let ?s2 = "send_json_message ?s1 ?m"
  have p: "\<And>t. process_received_message loads R E t frame = Some (handle_game_start t)"
    using assms by (simp add: process_received_message_def)
  have 1: "process_received_message loads R E s frame = Some ?s1"
    using p handle_game_start_sends by simp
  have f: "board ?s1 = Board" "game_started ?s1" "\<not> waiting_for_move ?s1"
    by (simp_all add: send_json_message_fields)
  have "?s1\<lparr>board := Board, game_started := True, waiting_for_move := False\<rparr> = ?s1"
    using f by simp
  then have 2: "process_received_message loads R E ?s1 frame = Some ?s2"
    using p handle_game_start_sends [of ?s1] by simp
  have m: "get_initial_board_matrix ?s1 = start_matrix"
    using f(1) by (rule initial_matrix_start)
  have c: "concat (get_initial_board_matrix ?s1)
             = replicate 16 1 @ replicate 32 0 @ replicate 16 1"
    unfolding m by (simp add: start_matrix_def numeral_eq_Suc)
  have t: "sum_list (concat (get_initial_board_matrix ?s1)) = 32"
    unfolding m by (rule start_matrix_sum)
  have b: "move_stack (board ?s1) = []"
    using f(1) by (simp add: Board_def)
  have w: \<open>serial_open s \<longrightarrow>
           serial_written ?s1 = serial_written s @ [''{"type": "board_matrix", "matrix": [1, 1, 1, 1, 1, 1, 1, 1, 1, 1, 1, 1, 1, 1, 1, 1, ''
             @ ''0, 0, 0, 0, 0, 0, 0, 0, 0, 0, 0, 0, 0, 0, 0, 0, ''
             @ ''0, 0, 0, 0, 0, 0, 0, 0, 0, 0, 0, 0, 0, 0, 0, 0, ''
             @ ''1, 1, 1, 1, 1, 1, 1, 1, 1, 1, 1, 1, 1, 1, 1, 1]}'' @ [CHR 0x0A]]\<close>
    using board_matrix_frame by (simp add: send_json_message_def)
  have n: "\<not> serial_open s \<longrightarrow> serial_written ?s1 = serial_written s"
    by (simp add: send_json_message_def)
  have g: "board ?s2 = board ?s1" "game_started ?s2" "\<not> waiting_for_move ?s2"
    using f by (simp_all add: send_json_message_fields)
  show ?thesis
    using 1 2 f c t b w n g by blast
qed

theorem game_start_resets_witness:
  \<open>json_loads ''{"type": "game_start"}'' = Inr (JObj [(''type'', JStr ''game_start'')])
   \<and> dict_get [(''type'', JStr ''game_start'')] ''type'' (JStr '''') = JStr ''game_start''
   \<and> serial_open idle_server \<and> serial_written idle_server = []
   \<and> (\<exists>s1. process_received_message json_loads opening_rules level_engine idle_server
               ''{"type": "game_start"}'' = Some s1
        \<and> board s1 = Board \<and> game_started s1 \<and> \<not> waiting_for_move s1
        \<and> serial_written s1 = [''{"type": "board_matrix", "matrix": [1, 1, 1, 1, 1, 1, 1, 1, 1, 1, 1, 1, 1, 1, 1, 1, ''
             @ ''0, 0, 0, 0, 0, 0, 0, 0, 0, 0, 0, 0, 0, 0, 0, 0, ''
             @ ''0, 0, 0, 0, 0, 0, 0, 0, 0, 0, 0, 0, 0, 0, 0, 0, ''
             @ ''1, 1, 1, 1, 1, 1, 1, 1, 1, 1, 1, 1, 1, 1, 1, 1]}'' @ [CHR 0x0A]])\<close>
proof -
  have 1: \<open>json_loads ''{"type": "game_start"}'' = Inr (JObj [(''type'', JStr ''game_start'')])\<close>
    by code_simp
  have 2: "dict_get [(''type'', JStr ''game_start'')] ''type'' (JStr '''') = JStr ''game_start''"
    by (simp add: dict_get_def)
  have 3: "serial_open idle_server" "serial_written idle_server = []"
    by (simp_all add: idle_server_def init_server_def)
  from game_start_resets [where loads = json_loads and frame = \<open>''{"type": "game_start"}''\<close>
      and d = "[(''type'', JStr ''game_start'')]" and R = opening_rules and E = level_engine
      and s = idle_server, OF 1 2]
  obtain s1 where
    a: \<open>process_received_message json_loads opening_rules level_engine idle_server
          ''{"type": "game_start"}'' = Some s1\<close>
    and b: "board s1 = Board" "game_started s1" "\<not> waiting_for_move s1"
    and c: \<open>serial_open idle_server \<longrightarrow>
           serial_written s1 = serial_written idle_server @ [''{"type": "board_matrix", "matrix": [1, 1, 1, 1, 1, 1, 1, 1, 1, 1, 1, 1, 1, 1, 1, 1, ''
             @ ''0, 0, 0, 0, 0, 0, 0, 0, 0, 0, 0, 0, 0, 0, 0, 0, ''
             @ ''0, 0, 0, 0, 0, 0, 0, 0, 0, 0, 0, 0, 0, 0, 0, 0, ''
             @ ''1, 1, 1, 1, 1, 1, 1, 1, 1, 1, 1, 1, 1, 1, 1, 1]}'' @ [CHR 0x0A]]\<close>
    by blast
  have \<open>serial_written s1 = [''{"type": "board_matrix", "matrix": [1, 1, 1, 1, 1, 1, 1, 1, 1, 1, 1, 1, 1, 1, 1, 1, ''
             @ ''0, 0, 0, 0, 0, 0, 0, 0, 0, 0, 0, 0, 0, 0, 0, 0, ''
             @ ''0, 0, 0, 0, 0, 0, 0, 0, 0, 0, 0, 0, 0, 0, 0, 0, ''
             @ ''1, 1, 1, 1, 1, 1, 1, 1, 1, 1, 1, 1, 1, 1, 1, 1]}'' @ [CHR 0x0A]]\<close>
    using c 3 by simp
  then show ?thesis
    using 1 2 3 a b by blast
qed
subsection \<open>The text of a move in a message\<close>

lemma square_names_all:
  "list_all (\<lambda>sq. case square_name sq of
                    Inr [f, r] \<Rightarrow> f \<in> set FILE_NAMES \<and> r \<in> set RANK_NAMES
                  | _ \<Rightarrow> False) [0..<64]"
  by code_simp

lemma square_name_shape:
  assumes "sq < 64"
  shows "\<exists>f r. square_name sq = Inr [f, r] \<and> f \<in> set FILE_NAMES \<and> r \<in> set RANK_NAMES"
proof -
  have "sq \<in> set [0..<64]" using assms by simp
  with square_names_all
  have "case square_name sq of
                    Inr [f, r] \<Rightarrow> f \<in> set FILE_NAMES \<and> r \<in> set RANK_NAMES
                  | _ \<Rightarrow> False"
    unfolding list_all_iff by blast
  then show ?thesis
    by (auto split: sum.splits list.splits)
qed

lemma upper_square_valid:
  assumes "f \<in> set FILE_NAMES" "r \<in> set RANK_NAMES"
  shows "is_valid_square (upper [f, r])" "upper [f, r] = [upper_char f, r]"
  using assms
  by (auto simp: FILE_NAMES_def RANK_NAMES_def is_valid_square_def upper_def upper_char_def
      ord_def char_of_eq_small)

lemma map_exn_list_all2:
  "list_all2 (\<lambda>x y. f x = Inr y) xs ys \<Longrightarrow> map_exn f xs = Inr ys"
  by (induction xs ys rule: list_all2_induct) auto

text \<open>
  C9, as the code has it. The text of a move in a \<open>move_options\<close> message is its UCI
  text in upper case. For a move between two squares of the board (no drop, not the
  null move) it starts with the four characters of the origin and the destination
  square in upper case; a move without promotion has no more, a move with a promotion
  has a fifth, the letter of the promotion piece. \<open>is_valid_move_format\<close> accepts both.
  \<open>send_move_options\<close> writes that text as \<open>best_move\<close> and the texts of the first
  four alternatives as \<open>alternatives\<close>.
\<close>

theorem wire_form_of_move:
  assumes "from_square m < 64" and "to_square m < 64"
    and "drop_piece m = None" and "move_bool m"
  shows "\<exists>f t. square_name (from_square m) = Inr f \<and> square_name (to_square m) = Inr t
      \<and> length (upper f @ upper t) = 4
      \<and> wire_form m = Inr (upper f @ upper t
           @ (case promotion m of None \<Rightarrow> [] | Some p \<Rightarrow> upper [piece_symbol p]))
      \<and> is_valid_move_format (upper f @ upper t
           @ (case promotion m of None \<Rightarrow> [] | Some p \<Rightarrow> upper [piece_symbol p]))
      \<and> (serial_open s \<longrightarrow> list_all2 (\<lambda>a w. wire_form a = Inr w) (take 4 alternatives) ws \<longrightarrow>
           send_move_options s m alternatives =
             (s\<lparr>serial_written := serial_written s
                  @ [json_dumps (move_options_message
                       (upper f @ upper t
                         @ (case promotion m of None \<Rightarrow> [] | Some p \<Rightarrow> upper [piece_symbol p]))
                       ws) @ [CHR 0x0A]]\<rparr>, None))"
proof -
  from square_name_shape [OF assms(1)] obtain f1 r1 where
    f: "square_name (from_square m) = Inr [f1, r1]" "f1 \<in> set FILE_NAMES" "r1 \<in> set RANK_NAMES"
    by blast
  from square_name_shape [OF assms(2)] obtain f2 r2 where
    t: "square_name (to_square m) = Inr [f2, r2]" "f2 \<in> set FILE_NAMES" "r2 \<in> set RANK_NAMES"
    by blast
  let ?p = "case promotion m of None \<Rightarrow> [] | Some p \<Rightarrow> upper [piece_symbol p]"
  let ?w = "upper [f1, r1] @ upper [f2, r2] @ ?p"
  have len: "length (upper [f1, r1] @ upper [f2, r2]) = 4"
    by (simp add: upper_def)
  have w: "wire_form m = Inr ?w"
    using assms(3,4) f(1) t(1)
    by (cases "promotion m") (simp_all add: wire_form_def uci_def upper_def)
  have v: "is_valid_move_format ?w"
    using upper_square_valid [OF f(2,3)] upper_square_valid [OF t(2,3)]
    by (simp add: is_valid_move_format_def)
  have snd: "serial_open s \<longrightarrow>
      list_all2 (\<lambda>a w. wire_form a = Inr w) (take 4 alternatives) ws \<longrightarrow>
      send_move_options s m alternatives =
        (s\<lparr>serial_written := serial_written s
              @ [json_dumps (move_options_message ?w ws) @ [CHR 0x0A]]\<rparr>, None)"
    using w by (auto simp: send_move_options_def send_json_message_def dest: map_exn_list_all2)
  show ?thesis
    using f(1) t(1) len w v snd by blast
qed

theorem wire_form_of_move_witness:
  "from_square (Move 12 28) < 64 \<and> to_square (Move 12 28) < 64
   \<and> drop_piece (Move 12 28) = None \<and> move_bool (Move 12 28)
   \<and> square_name (from_square (Move 12 28)) = Inr ''e2''
   \<and> square_name (to_square (Move 12 28)) = Inr ''e4''
   \<and> wire_form (Move 12 28) = Inr ''E2E4''
   \<and> is_valid_move_format ''E2E4''
   \<and> serial_open idle_server
   \<and> list_all2 (\<lambda>a w. wire_form a = Inr w) (take 4 [Move 12 20]) [''E2E3'']
   \<and> send_move_options idle_server (Move 12 28) [Move 12 20]
       = (idle_server\<lparr>serial_written := serial_written idle_server
            @ [json_dumps (move_options_message ''E2E4'' [''E2E3'']) @ [CHR 0x0A]]\<rparr>, None)"
proof -
  have h: "from_square (Move 12 28) < 64" "to_square (Move 12 28) < 64"
    "drop_piece (Move 12 28) = None" "move_bool (Move 12 28)"
    by (simp_all add: Move_def move_bool_def)
  have n: "square_name (from_square (Move 12 28)) = Inr ''e2''"
    "square_name (to_square (Move 12 28)) = Inr ''e4''"
    by code_simp+
  have u: "upper ''e2'' @ upper ''e4''
       @ (case promotion (Move 12 28) of None \<Rightarrow> [] | Some p \<Rightarrow> upper [piece_symbol p])
     = ''E2E4''"
    by code_simp
  have o: "serial_open idle_server"
    by (simp add: idle_server_def)
  have a: "list_all2 (\<lambda>a w. wire_form a = Inr w) (take 4 [Move 12 20]) [''E2E3'']"
    by code_simp
  from wire_form_of_move [OF h, of idle_server "[Move 12 20]" "[''E2E3'']"]
  show ?thesis
    using h n u o a by auto
qed

text \<open>
  C9 as the claim states it fails for a move with a promotion: the pawn move from e7
  to e8 that promotes to a queen has the text \<open>E7E8Q\<close>, of five characters.
\<close>

theorem wire_form_promotion_counterexample:
  "wire_form \<lparr>from_square = 52, to_square = 60, promotion = Some QUEEN, drop_piece = None\<rparr>
     = Inr ''E7E8Q''
   \<and> square_name 52 = Inr ''e7'' \<and> square_name 60 = Inr ''e8''
   \<and> length ''E7E8Q'' = 5
   \<and> ''E7E8Q'' \<noteq> upper ''e7'' @ upper ''e8''"
  by code_simp

subsection \<open>Strings through \<open>json.dumps\<close> and \<open>json.loads\<close>\<close>

lemma prepend_Inr: "prepend c (Inr (x, r)) = Inr (c # x, r)"
  by (simp add: prepend_def)

lemma hex_val_hex_char: "d < 16 \<Longrightarrow> hex_val (hex_char d) = Some d"
proof -
  have "list_all (\<lambda>d. hex_val (hex_char d) = Some d) [0..<16]"
    by code_simp
  moreover assume "d < 16"
  ultimately show ?thesis
    unfolding list_all_iff by simp
qed

lemma hex_val_0: "hex_val CHR ''0'' = Some 0"
  by code_simp

lemma decode_hex4_escape:
  "n < 256 \<Longrightarrow> decode_hex4 CHR ''0'' CHR ''0'' (hex_char (n div 16)) (hex_char (n mod 16)) = Some n"
proof -
  assume n: "n < 256"
  then have "n div 16 < 16" "n mod 16 < 16" by simp_all
  then show ?thesis
    by (simp add: decode_hex4_def hex_val_0 hex_val_hex_char)
qed

lemma scanstring_escape_char:
  "scanstring (escape_char c @ tail) = prepend c (scanstring tail)"
proof -
  let ?n = "of_char c :: nat"
  have n: "?n < 256" by simp
  consider (q) "c = CHR 0x22" | (b) "c = CHR 0x5C" | (nl) "c = CHR 0x0A" | (cr) "c = CHR 0x0D"
    | (t) "c = CHR 0x09" | (bs) "c = CHR 0x08" | (ff) "c = CHR 0x0C"
    | (plain) "c \<noteq> CHR 0x22" "c \<noteq> CHR 0x5C" "32 \<le> ?n" "?n \<le> 126"
    | (u) "c \<noteq> CHR 0x22" "c \<noteq> CHR 0x5C" "c \<noteq> CHR 0x0A" "c \<noteq> CHR 0x0D" "c \<noteq> CHR 0x09"
          "c \<noteq> CHR 0x08" "c \<noteq> CHR 0x0C" "\<not> (32 \<le> ?n \<and> ?n \<le> 126)"
    by blast
  then show ?thesis
  proof cases
    case plain
    then have "escape_char c = [c]"
      by (auto simp: escape_char_def Let_def)
    then show ?thesis using plain by simp
  next
    case u
    then have e: "escape_char c = [CHR 0x5C, CHR ''u'', CHR ''0'', CHR ''0'',
        hex_char (?n div 16), hex_char (?n mod 16)]"
      by (simp add: escape_char_def Let_def)
    show ?thesis
      unfolding e using decode_hex4_escape [OF n] n by simp
  qed (simp_all add: escape_char_def unescape_def)
qed

lemma scanstring_dumps:
  "scanstring (concat (map escape_char s) @ CHR 0x22 # rest) = Inr (s, rest)"
  by (induction s) (simp_all add: scanstring_escape_char prepend_Inr)

subsection \<open>Integers through \<open>json.dumps\<close> and \<open>json.loads\<close>\<close>

lemma digit_char_props:
  assumes "d < 10"
  shows "is_digit (digit_char d)" "digit_val (digit_char d) = d"
    "digit_char d \<noteq> CHR ''-''" "(digit_char d = CHR ''0'') = (d = 0)"
    "digit_char d \<noteq> CHR 0x22" "digit_char d \<noteq> CHR ''{''" "digit_char d \<noteq> CHR ''[''"
    "digit_char d \<noteq> CHR ''n''" "digit_char d \<noteq> CHR ''t''" "digit_char d \<noteq> CHR ''f''"
    "\<not> is_ws (digit_char d)"
  using assms
  by (auto simp: is_digit_def digit_val_def digit_char_def char_of_eq_small is_ws_def)

lemma str_nat_digits: "list_all is_digit (str_nat n)"
proof (induction n rule: str_nat.induct)
  case (1 n)
  show ?case
  proof (cases "n < 10")
    case True
    then show ?thesis by (simp add: str_nat_digit digit_char_props)
  next
    case False
    then have "str_nat n = str_nat (n div 10) @ [digit_char (n mod 10)]"
      by (subst str_nat.simps) simp
    then show ?thesis using 1 False by (simp add: digit_char_props)
  qed
qed

lemma str_nat_not_Nil: "str_nat n \<noteq> []"
  by (subst str_nat.simps) simp

lemma digits_val_snoc: "digits_val (ds @ [c]) = 10 * digits_val ds + digit_val c"
  by (simp add: digits_val_def)

lemma digits_val_str_nat: "digits_val (str_nat n) = n"
proof (induction n rule: str_nat.induct)
  case (1 n)
  show ?case
  proof (cases "n < 10")
    case True
    then show ?thesis by (simp add: str_nat_digit digit_char_props digits_val_def)
  next
    case False
    then have "str_nat n = str_nat (n div 10) @ [digit_char (n mod 10)]"
      by (subst str_nat.simps) simp
    then show ?thesis using 1 False by (simp add: digits_val_snoc digit_char_props)
  qed
qed

lemma hd_str_nat: "0 < n \<Longrightarrow> hd (str_nat n) \<noteq> CHR ''0''"
proof (induction n rule: str_nat.induct)
  case (1 n)
  show ?case
  proof (cases "n < 10")
    case True
    then show ?thesis using 1(2) by (simp add: str_nat_digit digit_char_props)
  next
    case False
    then have "str_nat n = str_nat (n div 10) @ [digit_char (n mod 10)]"
      by (subst str_nat.simps) simp
    moreover have "0 < n div 10" using False by simp
    ultimately show ?thesis using 1(1) False by (simp add: str_nat_not_Nil)
  qed
qed

lemma takeWhile_digits:
  assumes "list_all is_digit ds" "stop rest"
  shows "takeWhile is_digit (ds @ rest) = ds"
proof -
  have "takeWhile is_digit rest = []"
    using assms(2) by (cases rest) (auto simp: stop_def is_digit_def)
  then show ?thesis
    using assms(1) by (simp add: takeWhile_append2 list_all_iff)
qed

lemma stop_not_float: "stop rest \<Longrightarrow> \<not> is_float_tail rest"
  by (cases rest) (auto simp: stop_def is_float_tail_def)

lemma scan_number_nat:
  assumes "stop rest"
  shows "scan_number (str_nat k @ rest) = Inr (JInt (int k), rest)"
proof -
  obtain c cs where s: "str_nat k = c # cs"
    using str_nat_not_Nil [of k] by (cases "str_nat k") auto
  have d: "list_all is_digit (c # cs)" using str_nat_digits [of k] s by simp
  then have c: "is_digit c" "c \<noteq> CHR ''-''" by (auto simp: is_digit_def)
  have tw: "takeWhile is_digit ((c # cs) @ rest) = c # cs"
    using takeWhile_digits [OF d assms] .
  have z: "c = CHR ''0'' \<Longrightarrow> cs = []"
  proof -
    assume "c = CHR ''0''"
    then have "\<not> 0 < k" using hd_str_nat [of k] s by auto
    then show "cs = []" using s by (simp add: str_nat_digit digit_char_def)
  qed
  have v: "digits_val (c # cs) = k" using digits_val_str_nat [of k] s by simp
  show ?thesis
    unfolding s using c tw z v stop_not_float [OF assms]
    by (auto simp: scan_number_def Let_def)
qed

lemma scan_number_str_int:
  assumes "stop rest"
  shows "scan_number (str_int i @ rest) = Inr (JInt i, rest)"
proof (cases "i < 0")
  case False
  then show ?thesis
    using scan_number_nat [OF assms, of "nat i"] by (simp add: str_int_def)
next
  case True
  let ?k = "nat (- i)"
  obtain c cs where s: "str_nat ?k = c # cs"
    using str_nat_not_Nil [of ?k] by (cases "str_nat ?k") auto
  have d: "list_all is_digit (c # cs)" using str_nat_digits [of ?k] s by simp
  then have c: "is_digit c" by auto
  have tw: "takeWhile is_digit ((c # cs) @ rest) = c # cs"
    using takeWhile_digits [OF d assms] .
  have "0 < ?k" using True by simp
  then have nz: "c \<noteq> CHR ''0''" using hd_str_nat [of ?k] s by auto
  have v: "digits_val (c # cs) = ?k" using digits_val_str_nat [of ?k] s by simp
  have "scan_number (CHR ''-'' # (c # cs) @ rest) = Inr (JInt (- int ?k), rest)"
    using c tw nz v stop_not_float [OF assms]
    by (auto simp: scan_number_def Let_def)
  then show ?thesis
    using True s by (simp add: str_int_def)
qed

lemma str_int_head:
  "\<exists>c cs. str_int i = c # cs \<and> (is_digit c \<or> c = CHR ''-'')"
proof -
  obtain c cs where s: "str_nat (nat i) = c # cs"
    using str_nat_not_Nil [of "nat i"] by (cases "str_nat (nat i)") auto
  have "is_digit c" using str_nat_digits [of "nat i"] s by simp
  then show ?thesis using s by (auto simp: str_int_def)
qed

lemma scan_once_int:
  assumes "stop rest"
  shows "scan_once (Suc n) (str_int i @ rest) = Inr (JInt i, rest)"
proof -
  from str_int_head [of i] obtain c cs where
    s: "str_int i = c # cs" and c: "is_digit c \<or> c = CHR ''-''" by blast
  have "c \<noteq> CHR 0x22" "c \<noteq> CHR ''{''" "c \<noteq> CHR ''[''" "c \<noteq> CHR ''n''" "c \<noteq> CHR ''t''"
    "c \<noteq> CHR ''f''"
    using c by (auto simp: is_digit_def)
  then have "scan_once (Suc n) ((c # cs) @ rest) = scan_number ((c # cs) @ rest)"
    by (simp add: is_prefix_def)
  then show ?thesis
    using scan_number_str_int [OF assms, of i] s by simp
qed

subsection \<open>\<open>json.loads\<close> after \<open>json.dumps\<close>\<close>

lemma skip_ws_Cons: "skip_ws (c # cs) = (if is_ws c then skip_ws cs else c # cs)"
  by (simp add: skip_ws_def)

lemma skip_ws_Nil: "skip_ws [] = []"
  by (simp add: skip_ws_def)

lemma dumps_head:
  "\<exists>c cs. json_dumps v = c # cs \<and> \<not> is_ws c \<and> c \<noteq> CHR '']'' \<and> c \<noteq> CHR ''}''
     \<and> c \<noteq> CHR '','' \<and> c \<noteq> CHR '':''"
proof (cases v)
  case (JInt i)
  from str_int_head [of i] obtain c cs where
    "str_int i = c # cs" "is_digit c \<or> c = CHR ''-''" by blast
  then show ?thesis using JInt by (auto simp: is_digit_def is_ws_def)
next
  case (JArr xs)
  then show ?thesis by (cases xs) (auto simp: is_ws_def)
next
  case (JObj d)
  then show ?thesis by (cases d) (auto simp: is_ws_def)
qed (auto simp: is_ws_def dumps_str_def)

lemma skip_ws_dumps: "skip_ws (json_dumps v @ r) = json_dumps v @ r"
  using dumps_head [of v] by (auto simp: skip_ws_Cons)

lemma skip_ws_space_dumps: "skip_ws (CHR '' '' # json_dumps v @ r) = json_dumps v @ r"
  using skip_ws_dumps [of v r] by (simp add: skip_ws_Cons is_ws_def)

lemma stop_items: "stop (dumps_items xs @ CHR '']'' # rest)"
  by (cases xs) (simp_all add: stop_def)

lemma stop_pairs: "stop (dumps_pairs d @ CHR ''}'' # rest)"
  by (cases d) (auto simp: stop_def)

lemma dict_set_fresh: "k \<notin> fst ` set d \<Longrightarrow> dict_set d k v = d @ [(k, v)]"
  by (induction d) auto

lemma dict_merge_distinct_aux:
  "distinct (map fst (acc @ e)) \<Longrightarrow> foldl (\<lambda>a kv. dict_set a (fst kv) (snd kv)) acc e = acc @ e"
proof (induction e arbitrary: acc)
  case Nil
  then show ?case by simp
next
  case (Cons kv e)
  have "fst kv \<notin> fst ` set acc" using Cons.prems by auto
  then have "dict_set acc (fst kv) (snd kv) = acc @ [kv]"
    using dict_set_fresh [of "fst kv" acc "snd kv"] by simp
  moreover have "distinct (map fst ((acc @ [kv]) @ e))" using Cons.prems by simp
  ultimately show ?case using Cons.IH [of "acc @ [kv]"] by simp
qed

lemma dict_merge_distinct: "distinct (map fst d) \<Longrightarrow> dict_merge [] d = d"
  using dict_merge_distinct_aux [of "[]" d] by (simp add: dict_merge_def)

lemma scan_once_array:
  assumes "array_items m (json_dumps x @ r) = Inr (items, r1)"
  shows "scan_once (Suc m) (CHR ''['' # json_dumps x @ r) = Inr (JArr items, r1)"
proof -
  from dumps_head [of x] obtain c cs where
    h: "json_dumps x = c # cs" "\<not> is_ws c" "c \<noteq> CHR '']''" by blast
  show ?thesis
    using assms h by (simp add: skip_ws_Cons)
qed

lemma scan_once_object:
  assumes "object_pairs m (dumps_str k @ r) = Inr (pairs, r1)"
  shows "scan_once (Suc m) (CHR ''{'' # dumps_str k @ r) = Inr (JObj (dict_merge [] pairs), r1)"
  using assms by (simp add: dumps_str_def skip_ws_Cons is_ws_def)

lemma array_items_last:
  assumes "scan_once m s = Inr (x, CHR '']'' # rest)"
  shows "array_items (Suc m) s = Inr ([x], rest)"
  using assms by (simp add: skip_ws_Cons is_ws_def)

lemma array_items_more:
  assumes "scan_once m s = Inr (x, CHR '','' # CHR '' '' # json_dumps y @ r)"
    and "array_items m (json_dumps y @ r) = Inr (ys, rest)"
  shows "array_items (Suc m) s = Inr (x # ys, rest)"
  using assms by (simp add: skip_ws_Cons is_ws_def skip_ws_dumps)

lemma object_pairs_last:
  assumes "scan_once m (json_dumps v @ r) = Inr (v, CHR ''}'' # rest)"
  shows "object_pairs (Suc m) (dumps_str k @ CHR '':'' # CHR '' '' # json_dumps v @ r)
           = Inr ([(k, v)], rest)"
  using assms
  by (simp add: dumps_str_def scanstring_dumps skip_ws_Cons is_ws_def skip_ws_dumps)

lemma object_pairs_more:
  assumes "scan_once m (json_dumps v @ r) = Inr (v, CHR '','' # CHR '' '' # dumps_str k' @ r')"
    and "object_pairs m (dumps_str k' @ r') = Inr (pairs, rest)"
  shows "object_pairs (Suc m) (dumps_str k @ CHR '':'' # CHR '' '' # json_dumps v @ r)
           = Inr ((k, v) # pairs, rest)"
proof -
  have "skip_ws (CHR '' '' # dumps_str k' @ r') = dumps_str k' @ r'"
    by (simp add: dumps_str_def skip_ws_Cons is_ws_def)
  then show ?thesis
    using assms
    by (simp add: dumps_str_def scanstring_dumps skip_ws_Cons is_ws_def skip_ws_dumps)
qed

lemma loads_dumps_aux:
  "wf_json v \<Longrightarrow> stop rest \<Longrightarrow> 2 * length (json_dumps v @ rest) < n \<Longrightarrow>
     scan_once n (json_dumps v @ rest) = Inr (v, rest)"
  "wf_items xs \<Longrightarrow> 2 * length (json_dumps x @ dumps_items xs @ CHR '']'' # rest) + 1 < n \<Longrightarrow>
     scan_once (n - 1) (json_dumps x @ dumps_items xs @ CHR '']'' # rest)
       = Inr (x, dumps_items xs @ CHR '']'' # rest) \<Longrightarrow>
     array_items n (json_dumps x @ dumps_items xs @ CHR '']'' # rest) = Inr (x # xs, rest)"
  "wf_pairs d \<Longrightarrow>
     2 * length (dumps_str key @ CHR '':'' # CHR '' '' # json_dumps val
                  @ dumps_pairs d @ CHR ''}'' # rest) + 1 < n \<Longrightarrow>
     scan_once (n - 1) (json_dumps val @ dumps_pairs d @ CHR ''}'' # rest)
       = Inr (val, dumps_pairs d @ CHR ''}'' # rest) \<Longrightarrow>
     object_pairs n (dumps_str key @ CHR '':'' # CHR '' '' # json_dumps val
                      @ dumps_pairs d @ CHR ''}'' # rest)
       = Inr ((key, val) # d, rest)"
proof (induction v and xs and d arbitrary: n rest and n x rest and n key val rest
    rule: json_dumps_dumps_items_dumps_pairs.induct)
  case 1
  then obtain m where "n = Suc m" by (cases n) auto
  then show ?case by (simp add: is_prefix_def)
next
  case (2 b)
  then obtain m where "n = Suc m" by (cases n) auto
  then show ?case by (simp add: is_prefix_def)
next
  case (3 i)
  then obtain m where "n = Suc m" by (cases n) auto
  then show ?case using scan_once_int [OF "3.prems"(2)] by simp
next
  case (4 s)
  then obtain m where "n = Suc m" by (cases n) auto
  then show ?case by (simp add: dumps_str_def scanstring_dumps)
next
  case 5
  then obtain m where "n = Suc m" by (cases n) auto
  then show ?case by (simp add: skip_ws_Cons is_ws_def)
next
  case (6 x xs)
  let ?r = "dumps_items xs @ CHR '']'' # rest"
  from "6.prems"(3) obtain m where n: "n = Suc m" by (cases n) auto
  have f: "2 * length (json_dumps x @ ?r) + 1 < m"
    using "6.prems"(3) n by simp
  then have "2 * length (json_dumps x @ ?r) < m - 1" by simp
  from "6.IH"(1) [OF _ stop_items this]
  have "scan_once (m - 1) (json_dumps x @ ?r) = Inr (x, ?r)"
    using "6.prems"(1) by simp
  from "6.IH"(2) [OF _ f this]
  have "array_items m (json_dumps x @ ?r) = Inr (x # xs, rest)"
    using "6.prems"(1) by simp
  from scan_once_array [OF this] show ?case
    using n by simp
next
  case 7
  then obtain m where "n = Suc m" by (cases n) auto
  then show ?case by (simp add: skip_ws_Cons is_ws_def)
next
  case (8 k v d)
  let ?r = "dumps_pairs d @ CHR ''}'' # rest"
  let ?t = "dumps_str k @ CHR '':'' # CHR '' '' # json_dumps v @ ?r"
  from "8.prems"(3) obtain m where n: "n = Suc m" by (cases n) auto
  have f: "2 * length ?t + 1 < m"
    using "8.prems"(3) n by simp
  then have "2 * length (json_dumps v @ ?r) < m - 1" by simp
  from "8.IH"(1) [OF _ stop_pairs this]
  have "scan_once (m - 1) (json_dumps v @ ?r) = Inr (v, ?r)"
    using "8.prems"(1) by simp
  from "8.IH"(2) [OF _ f this]
  have "object_pairs m ?t = Inr ((k, v) # d, rest)"
    using "8.prems"(1) by simp
  then have "object_pairs m (dumps_str k @ (CHR '':'' # CHR '' '' # json_dumps v @ ?r))
      = Inr ((k, v) # d, rest)" by simp
  from scan_once_object [OF this]
  have "scan_once (Suc m) (CHR ''{'' # ?t) = Inr (JObj (dict_merge [] ((k, v) # d)), rest)"
    by simp
  moreover have "dict_merge [] ((k, v) # d) = (k, v) # d"
    using "8.prems"(1) dict_merge_distinct [of "(k, v) # d"] by simp
  ultimately show ?case
    using n by simp
next
  case 9
  then obtain m where n: "n = Suc m" by (cases n) auto
  from "9.prems"(3) have "scan_once m (json_dumps x @ CHR '']'' # rest) = Inr (x, CHR '']'' # rest)"
    using n by simp
  from array_items_last [OF this] show ?case
    using n by simp
next
  case (10 y ys)
  let ?r = "dumps_items ys @ CHR '']'' # rest"
  from "10.prems"(2) obtain m where n: "n = Suc m" by (cases n) auto
  have h: "scan_once m (json_dumps x @ CHR '','' # CHR '' '' # json_dumps y @ ?r)
      = Inr (x, CHR '','' # CHR '' '' # json_dumps y @ ?r)"
    using "10.prems"(3) n by simp
  have f: "2 * length (json_dumps y @ ?r) + 1 < m"
    using "10.prems"(2) n by simp
  then have "2 * length (json_dumps y @ ?r) < m - 1" by simp
  from "10.IH"(1) [OF _ stop_items this]
  have "scan_once (m - 1) (json_dumps y @ ?r) = Inr (y, ?r)"
    using "10.prems"(1) by simp
  from "10.IH"(2) [OF _ f this]
  have "array_items m (json_dumps y @ ?r) = Inr (y # ys, rest)"
    using "10.prems"(1) by simp
  from array_items_more [OF h this] show ?case
    using n by simp
next
  case 11
  then obtain m where n: "n = Suc m" by (cases n) auto
  from "11.prems"(3) have "scan_once m (json_dumps val @ CHR ''}'' # rest)
      = Inr (val, CHR ''}'' # rest)"
    using n by simp
  from object_pairs_last [OF this, of key] show ?case
    using n by simp
next
  case (12 k v d)
  let ?r = "dumps_pairs d @ CHR ''}'' # rest"
  let ?t = "CHR '':'' # CHR '' '' # json_dumps v @ ?r"
  from "12.prems"(2) obtain m where n: "n = Suc m" by (cases n) auto
  have h: "scan_once m (json_dumps val @ CHR '','' # CHR '' '' # dumps_str k @ ?t)
      = Inr (val, CHR '','' # CHR '' '' # dumps_str k @ ?t)"
    using "12.prems"(3) n by simp
  have f: "2 * length (dumps_str k @ ?t) + 1 < m"
    using "12.prems"(2) n by simp
  then have "2 * length (json_dumps v @ ?r) < m - 1" by simp
  from "12.IH"(1) [OF _ stop_pairs this]
  have "scan_once (m - 1) (json_dumps v @ ?r) = Inr (v, ?r)"
    using "12.prems"(1) by simp
  from "12.IH"(2) [OF _ f this]
  have "object_pairs m (dumps_str k @ ?t) = Inr ((k, v) # d, rest)"
    using "12.prems"(1) by simp
  from object_pairs_more [OF h this] show ?case
    using n by simp
qed

lemma loads_dumps: "wf_json v \<Longrightarrow> json_loads (json_dumps v) = Inr v"
proof -
  assume w: "wf_json v"
  have "stop []" by (simp add: stop_def)
  from loads_dumps_aux(1) [OF w this, of "2 * length (json_dumps v) + 2"]
  have "scan_once (2 * length (json_dumps v) + 2) (json_dumps v) = Inr (v, [])"
    by simp
  then show ?thesis
    using skip_ws_dumps [of v "[]"] by (simp add: json_loads_def skip_ws_Nil)
qed

subsection \<open>\<open>json.loads\<close> never runs out of calls\<close>

lemma decoded_ok_simps:
  "decoded_ok (Inl e) s = (e = JSONDecodeError \<or> e = Unmodelled)"
  "decoded_ok (Inr (v, r)) s = (length r < length s)"
  by (simp_all add: decoded_ok_def)

lemma decoded_ok_mono:
  "decoded_ok res s \<Longrightarrow> length s \<le> length t \<Longrightarrow> decoded_ok res t"
  by (auto simp: decoded_ok_def split: sum.splits)

lemma decoded_ok_prepend:
  "decoded_ok r s \<Longrightarrow> decoded_ok (prepend c r) s"
  by (auto simp: decoded_ok_def prepend_def split: sum.splits)

lemma scanstring_ok: "decoded_ok (scanstring s) (c0 # s)"
proof (induction s arbitrary: c0 rule: length_induct)
  case (1 s)
  have IH: "\<And>t c. length t < length s \<Longrightarrow> decoded_ok (scanstring t) (c # t)"
    using 1 by blast
  show ?case
  proof (cases s)
    case Nil
    then show ?thesis by (simp add: decoded_ok_simps)
  next
    case (Cons c cs)
    have a: "\<And>ch. decoded_ok (prepend ch (scanstring cs)) (c0 # s)"
      using IH [of cs c] Cons by (auto intro: decoded_ok_prepend decoded_ok_mono)
    have b: "\<And>ch e cs1. cs = e # cs1 \<Longrightarrow> decoded_ok (prepend ch (scanstring cs1)) (c0 # s)"
    proof -
      fix ch e cs1
      assume "cs = e # cs1"
      then have "decoded_ok (scanstring cs1) (e # cs1)" "length (e # cs1) \<le> length (c0 # s)"
        using IH [of cs1 e] Cons by auto
      then show "decoded_ok (prepend ch (scanstring cs1)) (c0 # s)"
        by (blast intro: decoded_ok_prepend decoded_ok_mono)
    qed
    have c: "\<And>ch e h1 h2 h3 h4 cs2. cs = e # h1 # h2 # h3 # h4 # cs2 \<Longrightarrow>
        decoded_ok (prepend ch (scanstring cs2)) (c0 # s)"
    proof -
      fix ch e h1 h2 h3 h4 cs2
      assume "cs = e # h1 # h2 # h3 # h4 # cs2"
      then have "decoded_ok (scanstring cs2) (e # cs2)" "length (e # cs2) \<le> length (c0 # s)"
        using IH [of cs2 e] Cons by auto
      then show "decoded_ok (prepend ch (scanstring cs2)) (c0 # s)"
        by (blast intro: decoded_ok_prepend decoded_ok_mono)
    qed
    show ?thesis
    proof (cases "c = CHR 0x22")
      case True
      then show ?thesis using Cons by (simp add: decoded_ok_simps)
    next
      case q: False
      show ?thesis
      proof (cases "c = CHR 0x5C")
        case False
        then show ?thesis
          using q a [of c] Cons by (simp add: decoded_ok_simps)
      next
        case True
        show ?thesis
        proof (cases cs)
          case Nil
          then show ?thesis using q True Cons by (simp add: decoded_ok_simps)
        next
          case e: (Cons e cs1)
          show ?thesis
          proof (cases "e = CHR ''u''")
            case False
            then show ?thesis
              using q True Cons e b [OF e]
              by (cases "unescape e") (simp_all add: decoded_ok_simps)
          next
            case u: True
            show ?thesis
            proof (cases "\<exists>h1 h2 h3 h4 cs2. cs1 = h1 # h2 # h3 # h4 # cs2")
              case False
              then have "(case cs1 of
                  h1 # h2 # h3 # h4 # cs2 \<Rightarrow>
                    (case decode_hex4 h1 h2 h3 h4 of
                       None \<Rightarrow> Inl JSONDecodeError
                     | Some n \<Rightarrow>
                         if n < 256 then prepend (char_of n) (scanstring cs2)
                         else Inl Unmodelled)
                | _ \<Rightarrow> Inl JSONDecodeError) = Inl JSONDecodeError"
                by (auto split: list.splits)
              then have "scanstring s = Inl JSONDecodeError"
                using q True Cons e u by simp
              then show ?thesis by (simp add: decoded_ok_simps)
            next
              case True
              then obtain h1 h2 h3 h4 cs2 where h: "cs1 = h1 # h2 # h3 # h4 # cs2"
                by blast
              have cs: "cs = e # h1 # h2 # h3 # h4 # cs2" using e h by simp
              have "scanstring s =
                    (case decode_hex4 h1 h2 h3 h4 of
                       None \<Rightarrow> Inl JSONDecodeError
                     | Some n \<Rightarrow>
                         if n < 256 then prepend (char_of n) (scanstring cs2)
                         else Inl Unmodelled)"
                using q \<open>c = CHR 0x5C\<close> Cons cs u by simp
              then show ?thesis
                using c [OF cs]
                by (cases "decode_hex4 h1 h2 h3 h4") (simp_all add: decoded_ok_simps)
            qed
          qed
        qed
      qed
    qed
  qed
qed

lemma scan_number_ok: "decoded_ok (scan_number s) s"
proof -
  let ?neg = "case s of [] \<Rightarrow> False | c # _ \<Rightarrow> c = CHR ''-''"
  let ?s1 = "if ?neg then tl s else s"
  have l: "length ?s1 \<le> length s" by simp
  show ?thesis
  proof (cases ?s1)
    case Nil
    then show ?thesis by (simp add: scan_number_def decoded_ok_simps Let_def)
  next
    case (Cons c cs)
    show ?thesis
    proof (cases "is_digit c")
      case False
      then show ?thesis
        using Cons by (simp add: scan_number_def decoded_ok_simps Let_def)
    next
      case True
      let ?ds = "if c = CHR ''0'' then [c] else takeWhile is_digit ?s1"
      have "0 < length ?ds" using True Cons by simp
      then have "length (drop (length ?ds) ?s1) < length ?s1"
        using Cons by simp
      then have "length (drop (length ?ds) ?s1) < length s"
        using l by simp
      then show ?thesis
        using True Cons unfolding scan_number_def Let_def
        by (simp add: decoded_ok_simps)
    qed
  qed
qed

lemma skip_ws_length: "length (skip_ws s) \<le> length s"
  by (simp add: skip_ws_def length_dropWhile_le)

lemma skip_ws_Cons_length: "skip_ws s = c # r \<Longrightarrow> length r < length s"
  using skip_ws_length [of s] by simp

lemma decoded_ok_map:
  "decoded_ok res s \<Longrightarrow> length s \<le> length t \<Longrightarrow>
   decoded_ok (case res of Inl e \<Rightarrow> Inl e | Inr (x, r) \<Rightarrow> Inr (f x, r)) t"
  by (auto simp: decoded_ok_def split: sum.splits)

lemma is_prefix_drop:
  "is_prefix p s \<Longrightarrow> p \<noteq> [] \<Longrightarrow> length (drop (length p) s) < length s"
  by (cases s) (auto simp: is_prefix_def)

lemma scan_ok:
  "(2 * length s < n \<longrightarrow> decoded_ok (scan_once n s) s)
   \<and> (2 * length s + 1 < n \<longrightarrow> decoded_ok (array_items n s) s)
   \<and> (2 * length s + 1 < n \<longrightarrow> decoded_ok (object_pairs n s) s)"
proof (induction n arbitrary: s)
  case 0
  then show ?case by simp
next
  case (Suc n)
  have IH1: "\<And>t. 2 * length t < n \<Longrightarrow> decoded_ok (scan_once n t) t"
    and IH2: "\<And>t. 2 * length t + 1 < n \<Longrightarrow> decoded_ok (array_items n t) t"
    and IH3: "\<And>t. 2 * length t + 1 < n \<Longrightarrow> decoded_ok (object_pairs n t) t"
    using Suc.IH by blast+
  have 1: "decoded_ok (scan_once (Suc n) s) s" if f: "2 * length s < Suc n"
  proof (cases s)
    case Nil
    then show ?thesis by (simp add: decoded_ok_simps)
  next
    case (Cons c cs)
    consider (str) "c = CHR 0x22" | (obj) "c \<noteq> CHR 0x22" "c = CHR ''{''"
      | (arr) "c \<noteq> CHR 0x22" "c \<noteq> CHR ''{''" "c = CHR ''[''"
      | (other) "c \<noteq> CHR 0x22" "c \<noteq> CHR ''{''" "c \<noteq> CHR ''[''"
      by blast
    then show ?thesis
    proof cases
      case str
      have "decoded_ok (scanstring cs) (c # cs)" by (rule scanstring_ok)
      from decoded_ok_map [OF this, of "c # cs" JStr]
      show ?thesis using Cons str by simp
    next
      case obj
      show ?thesis
      proof (cases "skip_ws cs")
        case Nil
        then show ?thesis using Cons obj by (simp add: decoded_ok_simps)
      next
        case dr: (Cons d r)
        have lr: "length r < length cs" using skip_ws_Cons_length [OF dr] .
        show ?thesis
        proof (cases "d = CHR ''}''")
          case True
          then show ?thesis using Cons obj dr lr by (simp add: decoded_ok_simps)
        next
          case False
          show ?thesis
          proof (cases "d = CHR 0x22")
            case False
            then show ?thesis
              using Cons obj dr \<open>d \<noteq> CHR ''}''\<close> by (simp add: decoded_ok_simps)
          next
            case True
            have "2 * length (d # r) + 1 < n" using lr f Cons by simp
            from IH3 [OF this] have "decoded_ok (object_pairs n (d # r)) (d # r)" .
            moreover have "length (d # r) \<le> length s" using lr Cons by simp
            ultimately have "decoded_ok (case object_pairs n (d # r) of
                      Inl e \<Rightarrow> Inl e
                    | Inr (pairs, r1) \<Rightarrow> Inr (JObj (dict_merge [] pairs), r1)) s"
              by (rule decoded_ok_map)
            then show ?thesis
              using Cons obj dr True by simp
          qed
        qed
      qed
    next
      case arr
      show ?thesis
      proof (cases "skip_ws cs")
        case Nil
        then show ?thesis using Cons arr by (simp add: decoded_ok_simps)
      next
        case dr: (Cons d r)
        have lr: "length r < length cs" using skip_ws_Cons_length [OF dr] .
        show ?thesis
        proof (cases "d = CHR '']''")
          case True
          then show ?thesis using Cons arr dr lr by (simp add: decoded_ok_simps)
        next
          case False
          have "2 * length (d # r) + 1 < n" using lr f Cons by simp
          from IH2 [OF this] have "decoded_ok (array_items n (d # r)) (d # r)" .
          moreover have "length (d # r) \<le> length s" using lr Cons by simp
          ultimately have "decoded_ok (case array_items n (d # r) of
                      Inl e \<Rightarrow> Inl e
                    | Inr (items, r1) \<Rightarrow> Inr (JArr items, r1)) s"
            by (rule decoded_ok_map)
          then show ?thesis
            using Cons arr dr False by simp
        qed
      qed
    next
      case other
      have n: "length (drop 4 s) < length s" if "is_prefix ''null'' s"
        using is_prefix_drop [OF that] by simp
      have t: "length (drop 4 s) < length s" if "is_prefix ''true'' s"
        using is_prefix_drop [OF that] by simp
      have fa: "length (drop 5 s) < length s" if "is_prefix ''false'' s"
        using is_prefix_drop [OF that] by simp
      have "scan_once (Suc n) s =
          (if is_prefix ''null'' s then Inr (JNull, drop 4 s)
           else if is_prefix ''true'' s then Inr (JBool True, drop 4 s)
           else if is_prefix ''false'' s then Inr (JBool False, drop 5 s)
           else scan_number s)"
        using Cons other by simp
      then show ?thesis
        using n t fa scan_number_ok [of s] by (simp add: decoded_ok_simps)
    qed
  qed
  have 2: "decoded_ok (array_items (Suc n) s) s" if f: "2 * length s + 1 < Suc n"
  proof -
    have "2 * length s < n" using f by simp
    from IH1 [OF this] have h: "decoded_ok (scan_once n s) s" .
    show ?thesis
    proof (cases "scan_once n s")
      case (Inl e)
      then show ?thesis using h by (simp add: decoded_ok_simps)
    next
      case (Inr p)
      obtain v r where p: "p = (v, r)" by (cases p)
      have lr: "length r < length s" using h Inr p by (simp add: decoded_ok_simps)
      show ?thesis
      proof (cases "skip_ws r")
        case Nil
        then show ?thesis using Inr p by (simp add: decoded_ok_simps)
      next
        case (Cons c r1)
        have l1: "length r1 < length r" using skip_ws_Cons_length [OF Cons] .
        have "2 * length (skip_ws r1) + 1 < n"
          using skip_ws_length [of r1] l1 lr f by simp
        from IH2 [OF this] have "decoded_ok (array_items n (skip_ws r1)) (skip_ws r1)" .
        moreover have "length (skip_ws r1) \<le> length s"
          using skip_ws_length [of r1] l1 lr by simp
        ultimately have "decoded_ok (case array_items n (skip_ws r1) of
                    Inl e \<Rightarrow> Inl e
                  | Inr (vs, r2) \<Rightarrow> Inr (v # vs, r2)) s"
          by (rule decoded_ok_map)
        then show ?thesis
          using Inr p Cons l1 lr by (simp add: decoded_ok_simps)
      qed
    qed
  qed
  have 3: "decoded_ok (object_pairs (Suc n) s) s" if f: "2 * length s + 1 < Suc n"
  proof (cases s)
    case Nil
    then show ?thesis by (simp add: decoded_ok_simps)
  next
    case (Cons q s1)
    show ?thesis
    proof (cases "q = CHR 0x22")
      case False
      then show ?thesis using Cons by (simp add: decoded_ok_simps)
    next
      case True
      have hs: "decoded_ok (scanstring s1) (q # s1)" by (rule scanstring_ok)
      show ?thesis
      proof (cases "scanstring s1")
        case (Inl e)
        then show ?thesis using hs Cons True by (simp add: decoded_ok_simps)
      next
        case (Inr p)
        obtain key r where p: "p = (key, r)" by (cases p)
        have lr: "length r < length s" using hs Inr p Cons by (simp add: decoded_ok_simps)
        show ?thesis
        proof (cases "skip_ws r")
          case Nil
          then show ?thesis using Inr p Cons True by (simp add: decoded_ok_simps)
        next
          case c: (Cons c r1)
          have l1: "length r1 < length r" using skip_ws_Cons_length [OF c] .
          show ?thesis
          proof (cases "c = CHR '':''")
            case False
            then show ?thesis using Inr p Cons True c by (simp add: decoded_ok_simps)
          next
            case colon: True
            have "2 * length (skip_ws r1) < n"
              using skip_ws_length [of r1] l1 lr f by simp
            from IH1 [OF this]
            have hv: "decoded_ok (scan_once n (skip_ws r1)) (skip_ws r1)" .
            show ?thesis
            proof (cases "scan_once n (skip_ws r1)")
              case (Inl e)
              then show ?thesis
                using hv Inr p Cons True c colon by (simp add: decoded_ok_simps)
            next
              case v: (Inr pv)
              obtain v r2 where pv: "pv = (v, r2)" by (cases pv)
              have l2: "length r2 < length r1"
                using hv v pv skip_ws_length [of r1] by (simp add: decoded_ok_simps)
              show ?thesis
              proof (cases "skip_ws r2")
                case Nil
                then show ?thesis
                  using Inr p Cons True c colon v pv by (simp add: decoded_ok_simps)
              next
                case d: (Cons d r3)
                have l3: "length r3 < length r2" using skip_ws_Cons_length [OF d] .
                have "2 * length (skip_ws r3) + 1 < n"
                  using skip_ws_length [of r3] l3 l2 l1 lr f by simp
                from IH3 [OF this]
                have "decoded_ok (object_pairs n (skip_ws r3)) (skip_ws r3)" .
                moreover have "length (skip_ws r3) \<le> length s"
                  using skip_ws_length [of r3] l3 l2 l1 lr by simp
                ultimately have "decoded_ok (case object_pairs n (skip_ws r3) of
                            Inl e \<Rightarrow> Inl e
                          | Inr (pairs, r4) \<Rightarrow> Inr ((key, v) # pairs, r4)) s"
                  by (rule decoded_ok_map)
                then show ?thesis
                  using Inr p Cons True c colon v pv d l3 l2 l1 lr
                  by (simp add: decoded_ok_simps)
              qed
            qed
          qed
        qed
      qed
    qed
  qed
  show ?case using 1 2 3 by blast
qed

lemma json_loads_errors:
  "json_loads s = Inl e \<Longrightarrow> e = JSONDecodeError \<or> e = Unmodelled"
proof -
  assume a: "json_loads s = Inl e"
  have "2 * length (skip_ws s) < 2 * length s + 2"
    using skip_ws_length [of s] by simp
  then have "decoded_ok (scan_once (2 * length s + 2) (skip_ws s)) (skip_ws s)"
    using scan_ok [of "skip_ws s" "2 * length s + 2"] by blast
  then show ?thesis
    using a
    by (auto simp: json_loads_def decoded_ok_def split: sum.splits prod.splits if_splits)
qed

lemma json_loads_no_RecursionError: "json_loads s \<noteq> Inl RecursionError"
  using json_loads_errors [of s RecursionError] by auto

subsection \<open>Messages through \<open>create_message\<close> and \<open>parse_message\<close>\<close>

lemma dropWhile_rev_snoc: "\<not> P x \<Longrightarrow> dropWhile P (rev (xs @ [x])) = rev (xs @ [x])"
  by simp

lemma strip_id:
  assumes "s \<noteq> []" "\<not> is_space (hd s)" "\<not> is_space (last s)"
  shows "strip s = s"
proof -
  have 1: "dropWhile is_space s = s"
    using assms(1,2) by (cases s) auto
  have "dropWhile is_space (rev (butlast s @ [last s])) = rev (butlast s @ [last s])"
    using assms(3) by (rule dropWhile_rev_snoc)
  moreover have "butlast s @ [last s] = s"
    using assms(1) by simp
  ultimately have "dropWhile is_space (rev s) = rev s"
    by simp
  then show ?thesis
    using 1 by (simp add: strip_def)
qed

lemma is_space_digit: "is_digit c \<Longrightarrow> \<not> is_space c"
  by (auto simp: is_digit_def is_space_def Let_def)

lemma last_str_nat: "is_digit (last (str_nat n))"
  using str_nat_digits [of n] str_nat_not_Nil [of n]
  by (simp add: list_all_iff)

lemma dumps_ends:
  "json_dumps v \<noteq> [] \<and> \<not> is_space (hd (json_dumps v)) \<and> \<not> is_space (last (json_dumps v))"
proof (cases v)
  case JNull
  then show ?thesis by (simp add: is_space_def)
next
  case (JBool b)
  then show ?thesis by (simp add: is_space_def)
next
  case (JInt i)
  from str_int_head [of i] obtain c cs where
    h: "str_int i = c # cs" "is_digit c \<or> c = CHR ''-''" by blast
  have "\<not> is_space c" using h(2) by (auto simp: is_space_digit) (simp add: is_space_def)
  moreover have "is_digit (last (str_int i))"
    using last_str_nat str_nat_not_Nil by (simp add: str_int_def)
  ultimately show ?thesis
    using JInt h(1) is_space_digit by simp
next
  case (JStr s)
  then show ?thesis by (simp add: dumps_str_def is_space_def)
next
  case (JArr xs)
  then show ?thesis by (cases xs) (simp_all add: is_space_def)
next
  case (JObj d)
  then show ?thesis by (cases d) (auto simp: is_space_def)
qed

lemma strip_dumps: "strip (json_dumps v) = json_dumps v"
  using dumps_ends [of v] by (simp add: strip_id)

lemma parse_message_dumps: "wf_json v \<Longrightarrow> parse_message (json_dumps v) = Inr (Some v)"
  by (simp add: parse_message_def strip_dumps loads_dumps)

lemma map_fst_dict_set:
  "map fst (dict_set d k v) = (if k \<in> set (map fst d) then map fst d else map fst d @ [k])"
proof (induction d)
  case Nil
  then show ?case by simp
next
  case (Cons kw d)
  obtain k' w where kw: "kw = (k', w)" by (cases kw)
  show ?case
    using Cons.IH unfolding kw by (cases "k' = k") (simp_all split: if_splits)
qed

lemma keys_dict_set: "fst ` set (dict_set d k v) = insert k (fst ` set d)"
proof -
  have "set (map fst (dict_set d k v)) = insert k (set (map fst d))"
    unfolding map_fst_dict_set by auto
  then show ?thesis by simp
qed

lemma distinct_dict_set: "distinct (map fst d) \<Longrightarrow> distinct (map fst (dict_set d k v))"
  unfolding map_fst_dict_set by simp

lemma wf_dict_set: "wf_pairs d \<Longrightarrow> wf_json v \<Longrightarrow> wf_pairs (dict_set d k v)"
  by (induction d) auto

lemma map_of_dict_set: "map_of (dict_set d k v) = (map_of d)(k \<mapsto> v)"
  by (induction d) auto

lemma wf_pairs_Cons: "wf_pairs (kv # e) = (wf_json (snd kv) \<and> wf_pairs e)"
  by (cases kv) simp

lemma dict_merge_props:
  assumes "distinct (map fst d)" "wf_pairs d" "distinct (map fst e)" "wf_pairs e"
  shows "distinct (map fst (dict_merge d e)) \<and> wf_pairs (dict_merge d e)
    \<and> fst ` set (dict_merge d e) = fst ` set d \<union> fst ` set e
    \<and> map_of (dict_merge d e) = map_of d ++ map_of e"
  using assms unfolding dict_merge_def
proof (induction e arbitrary: d)
  case Nil
  then show ?case by simp
next
  case (Cons kv e)
  let ?d = "dict_set d (fst kv) (snd kv)"
  let ?f = "foldl (\<lambda>acc kv. dict_set acc (fst kv) (snd kv))"
  have 1: "distinct (map fst ?d)" using Cons.prems(1) by (rule distinct_dict_set)
  have 2: "wf_pairs ?d" using Cons.prems(2,4) by (simp add: wf_dict_set wf_pairs_Cons)
  have 3: "distinct (map fst e)" using Cons.prems(3) by simp
  have 4: "wf_pairs e" using Cons.prems(4) by (simp add: wf_pairs_Cons)
  note ih = Cons.IH [OF 1 2 3 4]
  have "map_of e (fst kv) = None"
    using Cons.prems(3) by (simp add: map_of_eq_None_iff)
  then have m: "(map_of d)(fst kv \<mapsto> snd kv) ++ map_of e = map_of d ++ map_of (kv # e)"
    by (cases kv) (auto simp: map_add_def fun_eq_iff split: option.splits)
  have k: "fst ` set ?d \<union> fst ` set e = fst ` set d \<union> fst ` set (kv # e)"
    by (auto simp: keys_dict_set)
  have f: "?f d (kv # e) = ?f ?d e" by simp
  have "map_of (?f ?d e) = map_of ?d ++ map_of e" using ih by blast
  also have "\<dots> = (map_of d)(fst kv \<mapsto> snd kv) ++ map_of e"
    by (simp only: map_of_dict_set)
  also have "\<dots> = map_of d ++ map_of (kv # e)" by (rule m)
  finally have c4: "map_of (?f ?d e) = map_of d ++ map_of (kv # e)" .
  have "fst ` set (?f ?d e) = fst ` set ?d \<union> fst ` set e" using ih by blast
  then have c3: "fst ` set (?f ?d e) = fst ` set d \<union> fst ` set (kv # e)"
    using k by (simp only:)
  have c12: "distinct (map fst (?f ?d e))" "wf_pairs (?f ?d e)" using ih by blast+
  show ?case
    unfolding f using c12 c3 c4 by blast
qed

lemma str_nat_step: "10 \<le> n \<Longrightarrow> str_nat n = str_nat (n div 10) @ [digit_char (n mod 10)]"
  by (subst str_nat.simps) simp

lemma str_int_1700000000: "str_int 1700000000 = ''1700000000''"
  by (simp add: str_int_def str_nat_step str_nat_digit digit_char_def char_of_eq_small)

lemma dumps_str_plain:
  "list_all (\<lambda>c. c \<noteq> CHR 0x22 \<and> c \<noteq> CHR 0x5C \<and> 32 \<le> (of_char c :: nat)
                \<and> (of_char c :: nat) \<le> 126) s
   \<Longrightarrow> dumps_str s = CHR 0x22 # s @ [CHR 0x22]"
proof -
  assume a: "list_all (\<lambda>c. c \<noteq> CHR 0x22 \<and> c \<noteq> CHR 0x5C \<and> 32 \<le> (of_char c :: nat)
                \<and> (of_char c :: nat) \<le> 126) s"
  then have "concat (map escape_char s) = s"
    by (induction s) (auto simp: escape_char_def Let_def)
  then show ?thesis by (simp add: dumps_str_def)
qed

text \<open>
  C2. Decoding an encoded message gives the message back. For every message type and
  every data (a \<open>dict\<close> of JSON values), \<open>parse_message\<close> of \<open>create_message\<close> is
  the \<open>dict\<close> with the keys \<open>type\<close>, \<open>timestamp\<close> and those of the data; every
  field of the data has the value it had, and \<open>type\<close> is the message type (the data
  of a message has no \<open>type\<close> of its own). Only \<open>timestamp\<close> is new.
\<close>

theorem message_round_trip:
  assumes "wf_json (JObj data)"
  shows "\<exists>msg. parse_message (create_message now msg_type data) = Inr (Some (JObj msg))
     \<and> msg = dict_merge [(''type'', JStr msg_type), (''timestamp'', JInt now)] data
     \<and> fst ` set msg = {''type'', ''timestamp''} \<union> fst ` set data
     \<and> (\<forall>k v. map_of data k = Some v \<longrightarrow> map_of msg k = Some v)
     \<and> (''type'' \<notin> fst ` set data \<longrightarrow> map_of msg ''type'' = Some (JStr msg_type))"
proof -
  let ?h = "[(''type'', JStr msg_type), (''timestamp'', JInt now)]"
  let ?msg = "dict_merge ?h data"
  have h: "distinct (map fst ?h)" "wf_pairs ?h" by simp_all
  have d: "distinct (map fst data)" "wf_pairs data" using assms by simp_all
  from dict_merge_props [OF h d]
  have p: "distinct (map fst ?msg)" "wf_pairs ?msg"
    "fst ` set ?msg = fst ` set ?h \<union> fst ` set data"
    "map_of ?msg = map_of ?h ++ map_of data"
    by blast+
  have "wf_json (JObj ?msg)" using p(1,2) by simp
  then have 1: "parse_message (create_message now msg_type data) = Inr (Some (JObj ?msg))"
    by (simp add: create_message_def parse_message_dumps)
  have 2: "fst ` set ?msg = {''type'', ''timestamp''} \<union> fst ` set data"
    using p(3) by auto
  have 3: "\<forall>k v. map_of data k = Some v \<longrightarrow> map_of ?msg k = Some v"
    using p(4) by (simp add: map_add_Some_iff)
  have "map_of data ''type'' = None" if "''type'' \<notin> fst ` set data"
    using that by (simp add: map_of_eq_None_iff)
  then have 4: "''type'' \<notin> fst ` set data \<longrightarrow> map_of ?msg ''type'' = Some (JStr msg_type)"
    using p(4) by (simp add: map_add_def)
  show ?thesis
    using 1 2 3 4 by blast
qed

theorem message_round_trip_witness:
  \<open>wf_json (JObj [(''from'', JStr ''E7''), (''to'', JStr ''E5'')])
   \<and> create_ai_move_message 1700000000 ''E7'' ''E5''
       = ''{"type": "ai_move", "timestamp": 1700000000, "from": "E7", "to": "E5"}''
   \<and> (\<exists>msg. parse_message (create_ai_move_message 1700000000 ''E7'' ''E5'')
                = Inr (Some (JObj msg))
        \<and> msg = [(''type'', JStr ''ai_move''), (''timestamp'', JInt 1700000000),
                  (''from'', JStr ''E7''), (''to'', JStr ''E5'')]
        \<and> map_of msg ''from'' = Some (JStr ''E7'') \<and> map_of msg ''to'' = Some (JStr ''E5'')
        \<and> map_of msg ''type'' = Some (JStr ''ai_move''))\<close>
proof -
  have w: "wf_json (JObj [(''from'', JStr ''E7''), (''to'', JStr ''E5'')])"
    by simp
  have t: \<open>create_ai_move_message 1700000000 ''E7'' ''E5''
       = ''{"type": "ai_move", "timestamp": 1700000000, "from": "E7", "to": "E5"}''\<close>
    by (simp add: create_ai_move_message_def create_message_def dict_merge_def
        str_int_1700000000 dumps_str_plain)
  have m: "dict_merge [(''type'', JStr ''ai_move''), (''timestamp'', JInt 1700000000)]
             [(''from'', JStr ''E7''), (''to'', JStr ''E5'')]
           = [(''type'', JStr ''ai_move''), (''timestamp'', JInt 1700000000),
              (''from'', JStr ''E7''), (''to'', JStr ''E5'')]"
    by (simp add: dict_merge_def)
  have c: "create_ai_move_message 1700000000 ''E7'' ''E5''
       = create_message 1700000000 ''ai_move'' [(''from'', JStr ''E7''), (''to'', JStr ''E5'')]"
    by (simp add: create_ai_move_message_def)
  from message_round_trip [OF w, of 1700000000 "''ai_move''"]
  obtain msg where
    p: "parse_message (create_message 1700000000 ''ai_move''
          [(''from'', JStr ''E7''), (''to'', JStr ''E5'')]) = Inr (Some (JObj msg))"
    and e: "msg = dict_merge [(''type'', JStr ''ai_move''), (''timestamp'', JInt 1700000000)]
             [(''from'', JStr ''E7''), (''to'', JStr ''E5'')]"
    by blast
  have "map_of msg ''from'' = Some (JStr ''E7'')" "map_of msg ''to'' = Some (JStr ''E5'')"
    "map_of msg ''type'' = Some (JStr ''ai_move'')"
    unfolding e m by simp_all
  then show ?thesis
    using w t p e m c by simp
qed

subsection \<open>What \<open>parse_message\<close> rejects\<close>

lemma parse_message_by_json_loads: "parse_message_by json_loads frame = parse_message frame"
  by (simp add: parse_message_by_def parse_message_def)




end
